theory Spec2Isabelle
  imports Complex_Main
begin

section \<open>Strings and paths\<close>

text \<open>
  File names and paths are byte strings. The functions of \<^verbatim>\<open>os.path\<close> are those of
  \<^verbatim>\<open>posixpath\<close>, with the separator \<open>sep\<close>; a directory listing returns names that
  are non-empty and contain no separator.
\<close>

type_synonym path = string

definition sep :: char where
  "sep = CHR ''/''"

text \<open>\<^verbatim>\<open>str.lower()\<close> on ASCII letters; other bytes are unchanged.\<close>

definition lower_char :: "char \<Rightarrow> char" where
  "lower_char c =
     (let n = (of_char c :: nat) in if 65 \<le> n \<and> n \<le> 90 then char_of (n + 32) else c)"

definition lower :: "string \<Rightarrow> string" where
  "lower s = map lower_char s"

text \<open>\<^verbatim>\<open>s.endswith(suf)\<close> for one suffix, and for a tuple of suffixes.\<close>

definition endswith :: "string \<Rightarrow> string \<Rightarrow> bool" where
  "endswith s suf = (length suf \<le> length s \<and> drop (length s - length suf) s = suf)"

definition endswith_any :: "string \<Rightarrow> string list \<Rightarrow> bool" where
  "endswith_any s sufs = list_ex (endswith s) sufs"

text \<open>\<^verbatim>\<open>os.path.join(a, p)\<close> for two components.\<close>

definition os_path_join :: "path \<Rightarrow> string \<Rightarrow> path" where
  "os_path_join a p =
     (if p \<noteq> [] \<and> hd p = sep then p
      else if a = [] \<or> last a = sep then a @ p
      else a @ [sep] @ p)"

text \<open>\<^verbatim>\<open>os.path.basename(p)\<close>: everything after the last separator.\<close>

definition os_path_basename :: "path \<Rightarrow> string" where
  "os_path_basename p = rev (takeWhile (\<lambda>c. c \<noteq> sep) (rev p))"

text \<open>
  \<^verbatim>\<open>os.path.dirname(p)\<close>: everything up to the last separator, with the trailing
  separators removed unless nothing else is left.
\<close>

definition os_path_dirname :: "path \<Rightarrow> path" where
  "os_path_dirname p =
     (let head = rev (dropWhile (\<lambda>c. c \<noteq> sep) (rev p))
      in if head \<noteq> [] \<and> \<not> list_all (\<lambda>c. c = sep) head
         then rev (dropWhile (\<lambda>c. c = sep) (rev head))
         else head)"

text \<open>
  \<^verbatim>\<open>os.path.splitext(p)\<close> on a name without separator: split at the last dot, unless
  only dots precede it.
\<close>

definition os_path_splitext :: "string \<Rightarrow> string \<times> string" where
  "os_path_splitext p =
     (let k = length (takeWhile (\<lambda>c. c \<noteq> CHR ''.'') (rev p));
          i = length p - k - 1
      in if k < length p \<and> list_ex (\<lambda>c. c \<noteq> CHR ''.'') (take i p)
         then (take i p, drop i p)
         else (p, []))"

text \<open>\<^verbatim>\<open>str(n)\<close> for a non-negative integer: its decimal digits.\<close>

definition digit_char :: "nat \<Rightarrow> char" where
  "digit_char d = char_of (48 + d)"

fun str_nat :: "nat \<Rightarrow> string" where
  "str_nat n = (if n < 10 then [digit_char n] else str_nat (n div 10) @ [digit_char (n mod 10)])"

declare str_nat.simps [simp del]

section \<open>The watched directory as the loop sees it\<close>

text \<open>
  The exceptions of the operating-system calls that the loop distinguishes:
  \<^verbatim>\<open>PermissionError\<close> and \<^verbatim>\<open>FileNotFoundError\<close> are subclasses of \<^verbatim>\<open>OSError\<close>,
  \<open>OtherOSError\<close> stands for every other \<^verbatim>\<open>OSError\<close>.
\<close>

datatype os_error = PermissionError | FileNotFoundError | OtherOSError

text \<open>
  What the file system answers during one pass of the loop. \<open>None\<close> in \<open>listdir\<close> and
  \<open>getmtime\<close> is a raised exception; \<open>rename_self p\<close> is the outcome of
  \<^verbatim>\<open>os.rename(p, p)\<close>, \<open>None\<close> for success; \<open>shutil_move src dst\<close> tells whether
  \<^verbatim>\<open>shutil.move(src, dst)\<close> succeeds; \<open>existing\<close> lists the paths for which
  \<^verbatim>\<open>os.path.exists\<close> holds when the pass begins.
\<close>

record world =
  listdir :: "path \<Rightarrow> string list option"
  isfile :: "path \<Rightarrow> bool"
  getmtime :: "path \<Rightarrow> rat option"
  rename_self :: "path \<Rightarrow> os_error option"
  shutil_move :: "path \<Rightarrow> path \<Rightarrow> bool"
  existing :: "path list"

definition IMAGE_EXTENSIONS :: "string list" where
  "IMAGE_EXTENSIONS = [''.png'', ''.jpg'', ''.jpeg'', ''.gif'', ''.bmp'', ''.tiff'', ''.webp'']"

text \<open>The inner loop of step 1: the regular files of the listing whose time can be read.\<close>

fun read_directory :: "world \<Rightarrow> path \<Rightarrow> string list \<Rightarrow> (path \<times> rat) list" where
  "read_directory w target_dir [] = []"
| "read_directory w target_dir (f # fs) =
     (let file_path = os_path_join target_dir f
      in if isfile w file_path
         then (case getmtime w file_path of
                 Some mtime \<Rightarrow> (file_path, mtime) # read_directory w target_dir fs
               | None \<Rightarrow> read_directory w target_dir fs)
         else read_directory w target_dir fs)"

text \<open>Steps 2 and 3: the stable sort by modification time, then the extension filter.\<close>

definition is_image :: "path \<Rightarrow> bool" where
  "is_image f = endswith_any (lower f) IMAGE_EXTENSIONS"

definition image_files :: "(path \<times> rat) list \<Rightarrow> path list" where
  "image_files files_with_mtime =
     (let sorted_files = map fst (sort_key snd files_with_mtime)
      in filter is_image sorted_files)"

section \<open>The naming rule of the archive\<close>

text \<open>The candidate name \<^verbatim>\<open>os.path.join(printed_dir, f"{base}_{counter}{ext}")\<close>.\<close>

definition numbered :: "path \<Rightarrow> string \<Rightarrow> string \<Rightarrow> nat \<Rightarrow> path" where
  "numbered printed_dir base ext counter =
     os_path_join printed_dir (base @ ''_'' @ str_nat counter @ ext)"

text \<open>Reading a decimal rendering back, to tell the numbered names apart.\<close>

definition digits_value :: "string \<Rightarrow> nat" where
  "digits_value s = foldl (\<lambda>a c. 10 * a + (of_char c - 48)) 0 s"

definition taken_from :: "path list \<Rightarrow> path \<Rightarrow> string \<Rightarrow> string \<Rightarrow> nat \<Rightarrow> nat set" where
  "taken_from ex pd base ext c = {k. c \<le> k \<and> numbered pd base ext k \<in> set ex}"

lemma digit_char_value: "d < 10 \<Longrightarrow> (of_char (digit_char d) :: nat) - 48 = d"
  by (simp add: digit_char_def)

lemma digits_value_str_nat: "digits_value (str_nat n) = n"
proof (induction n rule: str_nat.induct)
  case (1 n)
  show ?case
  proof (cases "n < 10")
    case True
    then show ?thesis
      by (subst str_nat.simps) (simp add: digits_value_def digit_char_value)
  next
    case False
    then have ih: "digits_value (str_nat (n div 10)) = n div 10"
      using 1 by simp
    have "digits_value (str_nat n) = 10 * digits_value (str_nat (n div 10)) + (n mod 10)"
      using False
      by (subst str_nat.simps) (simp add: digits_value_def digit_char_value)
    then show ?thesis
      using ih by simp
  qed
qed

lemma str_nat_inj: "str_nat m = str_nat n \<Longrightarrow> m = n"
  by (metis digits_value_str_nat)

lemma os_path_join_append:
  "\<exists>pre. \<forall>r. os_path_join a (b @ ''_'' @ r) = pre @ b @ ''_'' @ r"
proof (cases b)
  case Nil
  then show ?thesis
    by (cases "a = [] \<or> last a = sep")
      (auto simp: os_path_join_def sep_def intro: exI [of _ a] exI [of _ "a @ [sep]"])
next
  case (Cons c cs)
  show ?thesis
  proof (cases "c = sep")
    case True
    then show ?thesis
      using Cons by (auto simp: os_path_join_def intro: exI [of _ "[]"])
  next
    case False
    then show ?thesis
      using Cons
      by (cases "a = [] \<or> last a = sep")
        (auto simp: os_path_join_def intro: exI [of _ a] exI [of _ "a @ [sep]"])
  qed
qed

lemma numbered_inj: "numbered pd base ext j = numbered pd base ext k \<Longrightarrow> j = k"
proof -
  assume h: "numbered pd base ext j = numbered pd base ext k"
  obtain pre where p: "\<And>r. os_path_join pd (base @ ''_'' @ r) = pre @ base @ ''_'' @ r"
    using os_path_join_append by blast
  from h have "str_nat j @ ext = str_nat k @ ext"
    unfolding numbered_def using p [of "str_nat j @ ext"] p [of "str_nat k @ ext"] by simp
  then show ?thesis
    using str_nat_inj by simp
qed

lemma finite_taken_from: "finite (taken_from ex pd base ext c)"
proof -
  have "taken_from ex pd base ext c \<subseteq> numbered pd base ext -` set ex"
    by (auto simp: taken_from_def)
  moreover have "finite (numbered pd base ext -` set ex)"
    by (rule finite_vimageI) (auto simp: inj_on_def dest: numbered_inj)
  ultimately show ?thesis
    by (rule finite_subset)
qed

lemma taken_from_step:
  "taken_from ex pd base ext c =
     (if numbered pd base ext c \<in> set ex then insert c (taken_from ex pd base ext (Suc c))
      else taken_from ex pd base ext (Suc c))"
  by (auto simp: taken_from_def Suc_le_eq le_less)

text \<open>
  The \<^verbatim>\<open>while os.path.exists(dest_path)\<close> loop, entered with the plain name and the
  counter 1. \<open>ex\<close> lists the existing paths.
\<close>

function unique_dest ::
  "path list \<Rightarrow> path \<Rightarrow> string \<Rightarrow> string \<Rightarrow> path \<Rightarrow> nat \<Rightarrow> path" where
  "unique_dest ex printed_dir base ext dest_path counter =
     (if dest_path \<in> set ex
      then unique_dest ex printed_dir base ext (numbered printed_dir base ext counter) (counter + 1)
      else dest_path)"
  by pat_completeness auto
termination unique_dest
proof (relation "measure (\<lambda>(ex, pd, base, ext, dest, c).
          card (taken_from ex pd base ext c) + (if dest \<in> set ex then 1 else 0))")
  show "wf (measure (\<lambda>(ex, pd, base, ext, dest, c).
          card (taken_from ex pd base ext c) + (if dest \<in> set ex then 1 else 0)))"
    by simp
next
  fix ex :: "path list" and printed_dir base ext dest_path and counter :: nat
  assume busy: "dest_path \<in> set ex"
  have c: "counter \<notin> taken_from ex printed_dir base ext (Suc counter)"
    by (simp add: taken_from_def)
  have "card (taken_from ex printed_dir base ext (Suc counter))
          + (if numbered printed_dir base ext counter \<in> set ex then 1 else 0)
        = card (taken_from ex printed_dir base ext counter)"
    by (subst (2) taken_from_step) (simp add: finite_taken_from c)
  then show "((ex, printed_dir, base, ext, numbered printed_dir base ext counter, counter + 1),
         ex, printed_dir, base, ext, dest_path, counter) \<in> measure (\<lambda>(ex, pd, base, ext, dest, c).
          card (taken_from ex pd base ext c) + (if dest \<in> set ex then 1 else 0))"
    using busy by simp
qed

declare unique_dest.simps [simp del]

section \<open>The processing loop\<close>

text \<open>
  What the program does to its surroundings, in order: lines on standard error and on
  standard output, calls of the file system with their outcome, calls on the printer
  object, pauses. The text of a caught exception is left out of a message.
  \<open>ReadFile\<close> and \<open>PrintImage\<close> are reading a file's bytes and submitting bytes to the
  printer.

  The functions of this section describe a run in which standard output accepts every
  line, and leave the progress lines written there out of the effects. The section on
  standard output gives the loop again with these lines, each of which can raise.
\<close>

datatype effect =
    Stderr string
  | Stdout string
  | Makedirs path bool
  | InstaxBLE_new bool
  | Connect bool
  | SendLedPattern string nat bool
  | Disconnect
  | PrintImage string
  | ReadFile path
  | ListDir path bool
  | Rename path path "os_error option"
  | Move path path bool
  | Sleep nat

definition quoted :: "string \<Rightarrow> string" where
  "quoted s = [CHR 0x27] @ s @ [CHR 0x27]"

text \<open>
  The destination for a file named \<open>basename\<close>: the split of the name, the plain name
  as first candidate, then the loop.
\<close>

definition archive_dest :: "path list \<Rightarrow> path \<Rightarrow> string \<Rightarrow> path" where
  "archive_dest ex printed_dir basename =
     (let (base, ext) = os_path_splitext basename;
          counter = 1;
          dest_path = os_path_join printed_dir basename
      in unique_dest ex printed_dir base ext dest_path counter)"

text \<open>One turn of the \<^verbatim>\<open>for file_path in image_files\<close> loop (step 4).\<close>

definition process_file :: "world \<Rightarrow> path \<Rightarrow> path list \<Rightarrow> path \<Rightarrow> path list \<times> effect list" where
  "process_file w printed_dir ex file_path =
     (case rename_self w file_path of
        Some FileNotFoundError \<Rightarrow> (ex, [Rename file_path file_path (Some FileNotFoundError)])
      | Some e \<Rightarrow> (ex, [Rename file_path file_path (Some e), Sleep 1])
      | None \<Rightarrow>
          (let basename = os_path_basename file_path;
               dest_path = archive_dest ex printed_dir basename
           in if shutil_move w file_path dest_path
              then (dest_path # removeAll file_path ex,
                    [Rename file_path file_path None, Move file_path dest_path True, Sleep 1])
              else (ex,
                    [Rename file_path file_path None, Move file_path dest_path False,
                     Stderr (''Error moving '' @ quoted basename @ '': ''), Sleep 1])))"

fun process_files :: "world \<Rightarrow> path \<Rightarrow> path list \<Rightarrow> path list \<Rightarrow> path list \<times> effect list" where
  "process_files w printed_dir ex [] = (ex, [])"
| "process_files w printed_dir ex (file_path # rest) =
     (let (ex1, es1) = process_file w printed_dir ex file_path;
          (ex2, es2) = process_files w printed_dir ex1 rest
      in (ex2, es1 @ es2))"

text \<open>
  One pass of \<^verbatim>\<open>while True\<close>. \<open>stop = Some k\<close> is a pass cut short by
  \<^verbatim>\<open>KeyboardInterrupt\<close> when \<open>k\<close> candidate files have been handled (or during the
  pause after a failed listing).
\<close>

definition poll :: "world \<Rightarrow> path \<Rightarrow> path \<Rightarrow> nat option \<Rightarrow> path list \<times> effect list" where
  "poll w target_dir printed_dir stop =
     (case listdir w target_dir of
        None \<Rightarrow>
          (existing w,
           [ListDir target_dir False,
            Stderr (''Error reading directory '' @ quoted target_dir @ '': '')]
           @ (if stop = None then [Sleep 5] else []))
      | Some names \<Rightarrow>
          (let files = image_files (read_directory w target_dir names)
           in case stop of
                None \<Rightarrow>
                  (let (ex, es) = process_files w printed_dir (existing w) files
                   in (ex, ListDir target_dir True # es @ [Sleep 1]))
              | Some k \<Rightarrow>
                  (let (ex, es) = process_files w printed_dir (existing w) (take k files)
                   in (ex, ListDir target_dir True # es))))"

text \<open>
  The surroundings of the loop over time: one entry per pass, an interrupted pass
  being the last one that runs. When the entries are used up the loop is still running,
  which is the exit status \<open>None\<close>.
\<close>

datatype tick = Pass world | Interrupted world nat

fun processing_loop :: "path \<Rightarrow> path \<Rightarrow> tick list \<Rightarrow> int option \<times> effect list" where
  "processing_loop target_dir printed_dir [] = (None, [])"
| "processing_loop target_dir printed_dir (Pass w # ticks) =
     (let es = snd (poll w target_dir printed_dir None);
          (status, es') = processing_loop target_dir printed_dir ticks
      in (status, es @ es'))"
| "processing_loop target_dir printed_dir (Interrupted w k # ticks) =
     (Some 0, snd (poll w target_dir printed_dir (Some k)))"

section \<open>Start-up and \<^verbatim>\<open>main\<close>\<close>

text \<open>
  What the surroundings answer before the loop. \<open>os_path_abspath\<close> gives \<open>None\<close> when
  it raises. The printer object is created and used by four calls; \<open>instax_failure\<close>
  names the first of them that raises, if any. (The file binds neither
  \<^verbatim>\<open>InstaxBLE\<close> nor \<^verbatim>\<open>LedPatterns\<close>; they are taken from the surroundings.)
\<close>

datatype makedirs_result = Created | RaisedOSError | RaisedOther

datatype instax_step = Constructing | Connecting | FirstPattern | SecondPattern

record startup =
  os_path_exists :: "path \<Rightarrow> bool"
  os_path_abspath :: "path \<Rightarrow> path option"
  os_path_isdir :: "path \<Rightarrow> bool"
  os_path_isfile :: "path \<Rightarrow> bool"
  os_makedirs :: "path \<Rightarrow> makedirs_result"
  instax_failure :: "instax_step option"

definition makedirs_failed :: "makedirs_result \<Rightarrow> effect list" where
  "makedirs_failed r =
     (if r = RaisedOSError
      then [Stderr ''Error: Failed to create directories.'', Stderr ''Details: '']
      else [Stderr ''An unexpected error occurred during directory creation: ''])"

text \<open>Section 4 of \<^verbatim>\<open>main\<close>: the two folders. \<open>Inl\<close> is \<^verbatim>\<open>return 1\<close>.\<close>

definition create_folders :: "startup \<Rightarrow> path \<Rightarrow> path \<Rightarrow> effect list + effect list" where
  "create_folders env printed_dir error_dir =
     (if os_makedirs env printed_dir \<noteq> Created
      then Inl (Makedirs printed_dir False # makedirs_failed (os_makedirs env printed_dir))
      else if os_makedirs env error_dir \<noteq> Created
      then Inl ([Makedirs printed_dir True, Makedirs error_dir False]
                @ makedirs_failed (os_makedirs env error_dir))
      else Inr [Makedirs printed_dir True, Makedirs error_dir True])"

text \<open>
  The \<^verbatim>\<open>try\<close> that opens section 5. When a call raises, the message is printed and
  the object, if it was created, is disconnected.
\<close>

definition instax_setup :: "instax_step option \<Rightarrow> effect list + effect list" where
  "instax_setup failure =
     (let message = Stderr ''Error initializing InstaxBLE or connecting: ''
      in case failure of
           Some Constructing \<Rightarrow> Inl [InstaxBLE_new False, message]
         | Some Connecting \<Rightarrow> Inl [InstaxBLE_new True, Connect False, message, Disconnect]
         | Some FirstPattern \<Rightarrow>
             Inl [InstaxBLE_new True, Connect True, SendLedPattern ''rainbow'' 1 False,
                  message, Disconnect]
         | Some SecondPattern \<Rightarrow>
             Inl [InstaxBLE_new True, Connect True, SendLedPattern ''rainbow'' 1 True,
                  SendLedPattern ''pulseGreen'' 2 False, message, Disconnect]
         | None \<Rightarrow>
             Inr [InstaxBLE_new True, Connect True, SendLedPattern ''rainbow'' 1 True,
                  SendLedPattern ''pulseGreen'' 2 True])"

text \<open>
  \<^verbatim>\<open>main\<close> from section 4 on, for a target directory: the folders, the printer, the
  loop. The result is the exit status, \<open>None\<close> while the loop runs, and the effects.
\<close>

definition watch :: "startup \<Rightarrow> path \<Rightarrow> tick list \<Rightarrow> int option \<times> effect list" where
  "watch env target_dir ticks =
     (let printed_dir = os_path_join target_dir ''printed'';
          error_dir = os_path_join target_dir ''error''
      in case create_folders env printed_dir error_dir of
           Inl es \<Rightarrow> (Some 1, es)
         | Inr es1 \<Rightarrow>
             (case instax_setup (instax_failure env) of
                Inl es2 \<Rightarrow> (Some 1, es1 @ es2)
              | Inr es2 \<Rightarrow>
                  (let (status, es3) = processing_loop target_dir printed_dir ticks
                   in (status, es1 @ es2 @ es3))))"

text \<open>Sections 1 to 3 of \<^verbatim>\<open>main\<close>, then the rest.\<close>

definition main :: "string list \<Rightarrow> startup \<Rightarrow> tick list \<Rightarrow> int option \<times> effect list" where
  "main args env ticks =
     (if length args < 2
      then (Some 1,
            [Stderr ''Error: No path argument provided.'',
             Stderr ''Usage: python path_watcher.py <path_to_file_or_directory>''])
      else
        (let input_path = args ! 1
         in if \<not> os_path_exists env input_path
            then (Some 1, [Stderr (''Error: Path '' @ quoted input_path @ '' does not exist.'')])
            else
              (case os_path_abspath env input_path of
                 None \<Rightarrow> (Some 1, [Stderr ''Error resolving absolute path: ''])
               | Some abs_path \<Rightarrow>
                   if os_path_isdir env abs_path then watch env abs_path ticks
                   else if os_path_isfile env abs_path
                   then watch env (os_path_dirname abs_path) ticks
                   else (Some 1,
                         [Stderr (''Error: Path '' @ quoted abs_path
                                  @ '' is not a valid file or directory.'')]))))"

text \<open>The files a pass probes with \<^verbatim>\<open>os.rename(p, p)\<close>, in the order of the probes.\<close>

fun probed :: "effect list \<Rightarrow> path list" where
  "probed [] = []"
| "probed (Rename p q r # es) = p # probed es"
| "probed (e # es) = probed es"

text \<open>A directory for the examples: two images and a text file, the older image listed last.\<close>

definition demo_world :: world where
  "demo_world =
     \<lparr> listdir = (\<lambda>d. if d = ''/w'' then Some [''b.PNG'', ''notes.txt'', ''a.jpg''] else None),
       isfile = (\<lambda>p. True),
       getmtime = (\<lambda>p. if p = ''/w/a.jpg'' then Some 3 else Some 5),
       rename_self = (\<lambda>p. None),
       shutil_move = (\<lambda>src dst. True),
       existing = [] \<rparr>"

section \<open>Order of processing\<close>

lemma probed_append: "probed (xs @ ys) = probed xs @ probed ys"
  by (induction xs rule: probed.induct) simp_all

lemma probed_process_file: "probed (snd (process_file w pd ex f)) = [f]"
  by (simp add: process_file_def Let_def split: option.splits os_error.splits prod.splits)

lemma probed_process_files: "probed (snd (process_files w pd ex fs)) = fs"
proof (induction fs arbitrary: ex)
  case Nil
  show ?case by simp
next
  case (Cons f fs)
  obtain ex1 es1 where a: "process_file w pd ex f = (ex1, es1)"
    by (cases "process_file w pd ex f")
  obtain ex2 es2 where b: "process_files w pd ex1 fs = (ex2, es2)"
    by (cases "process_files w pd ex1 fs")
  have "probed es1 = [f]"
    using probed_process_file [of w pd ex f] a by simp
  moreover have "probed es2 = fs"
    using Cons.IH [of ex1] b by simp
  ultimately show ?case
    by (simp add: a b probed_append)
qed

lemma sorted_position:
  fixes f :: "'a \<Rightarrow> rat"
  assumes s: "sorted (map f xs)" and i: "i < length xs" and j: "j < length xs"
    and lt: "f (xs ! i) < f (xs ! j)"
  shows "i < j"
proof (rule ccontr)
  assume "\<not> i < j"
  then have "j \<le> i" by simp
  with s i have "map f xs ! j \<le> map f xs ! i"
    by (simp add: sorted_iff_nth_mono)
  with i j lt show False by simp
qed

text \<open>
  C5. In a pass whose listing succeeds, the candidates are probed, one after the
  other, in the order of the list \<open>cs\<close>: the image files of the listing sorted by
  ascending modification time. Files of equal time keep the order of the listing (the
  sort is stable and the extension filter, applied after it, keeps the order), and
  a candidate with a strictly smaller time comes at a smaller position, so the older of
  two image files is handled first.
\<close>

theorem oldest_first:
  assumes "listdir w target_dir = Some names"
  shows "let files_with_mtime = read_directory w target_dir names;
             cs = filter (\<lambda>x. is_image (fst x)) (sort_key snd files_with_mtime)
         in probed (snd (poll w target_dir printed_dir None)) = map fst cs
            \<and> sorted (map snd cs)
            \<and> (\<forall>t. filter (\<lambda>x. snd x = t) cs
                     = filter (\<lambda>x. snd x = t) (filter (\<lambda>x. is_image (fst x)) files_with_mtime))
            \<and> (\<forall>i j. i < length cs \<and> j < length cs \<and> snd (cs ! i) < snd (cs ! j) \<longrightarrow> i < j)"
proof -
  define fwm where "fwm = read_directory w target_dir names"
  define cs where "cs = filter (\<lambda>x. is_image (fst x)) (sort_key snd fwm)"
  have img: "image_files fwm = map fst cs"
    by (simp add: image_files_def cs_def filter_map comp_def)
  obtain ex es where p: "process_files w printed_dir (existing w) (image_files fwm) = (ex, es)"
    by (cases "process_files w printed_dir (existing w) (image_files fwm)")
  have "probed es = image_files fwm"
    using probed_process_files [of w printed_dir "existing w" "image_files fwm"] p by simp
  then have 1: "probed (snd (poll w target_dir printed_dir None)) = map fst cs"
    using assms p img by (simp add: poll_def fwm_def probed_append)
  have "sorted (map snd (sort_key snd fwm))"
    by simp
  then have 2: "sorted (map snd cs)"
    unfolding cs_def by (simp add: sorted_filter)
  have 3: "filter (\<lambda>x. snd x = t) cs
             = filter (\<lambda>x. snd x = t) (filter (\<lambda>x. is_image (fst x)) fwm)" for t
  proof -
    have "filter (\<lambda>x. snd x = t) cs
            = filter (\<lambda>x. is_image (fst x)) (filter (\<lambda>x. snd x = t) (sort_key snd fwm))"
      unfolding cs_def by (simp add: conj_commute)
    also have "filter (\<lambda>x. snd x = t) (sort_key snd fwm) = filter (\<lambda>x. snd x = t) fwm"
      by (metis sort_key_stable)
    finally show ?thesis
      by (simp add: conj_commute)
  qed
  have 4: "i < j" if "i < length cs" "j < length cs" "snd (cs ! i) < snd (cs ! j)" for i j
    using sorted_position [OF 2 that] .
  show ?thesis
    unfolding Let_def fwm_def [symmetric] cs_def [symmetric]
    using 1 2 3 4 by blast
qed

theorem oldest_first_witness:
  "listdir demo_world ''/w'' = Some [''b.PNG'', ''notes.txt'', ''a.jpg'']
   \<and> probed (snd (poll demo_world ''/w'' ''/w/printed'' None)) = [''/w/a.jpg'', ''/w/b.PNG'']"
proof -
  have h: "listdir demo_world ''/w'' = Some [''b.PNG'', ''notes.txt'', ''a.jpg'']"
    by (simp add: demo_world_def)
  have r: "map fst (filter (\<lambda>x. is_image (fst x)) (sort_key snd
             (read_directory demo_world ''/w'' [''b.PNG'', ''notes.txt'', ''a.jpg''])))
           = [''/w/a.jpg'', ''/w/b.PNG'']"
    by code_simp
  have "probed (snd (poll demo_world ''/w'' ''/w/printed'' None))
          = map fst (filter (\<lambda>x. is_image (fst x)) (sort_key snd
             (read_directory demo_world ''/w'' [''b.PNG'', ''notes.txt'', ''a.jpg''])))"
    using oldest_first [OF h, of "''/w/printed''"] unfolding Let_def by (rule conjunct1)
  with h r show ?thesis
    by simp
qed

section \<open>The naming rule, applied repeatedly\<close>

text \<open>
  Resolving a destination for the same name \<open>n\<close> times, each result created before the
  next call.
\<close>

fun resolve_repeatedly :: "nat \<Rightarrow> path list \<Rightarrow> path \<Rightarrow> string \<Rightarrow> path list" where
  "resolve_repeatedly 0 ex printed_dir basename = []"
| "resolve_repeatedly (Suc n) ex printed_dir basename =
     (let dest_path = archive_dest ex printed_dir basename
      in dest_path # resolve_repeatedly n (dest_path # ex) printed_dir basename)"

text \<open>The names the rule hands out: the plain name, then the name with \<open>_k\<close> before the extension.\<close>

definition name_at :: "path \<Rightarrow> string \<Rightarrow> nat \<Rightarrow> path" where
  "name_at printed_dir basename k =
     (if k = 0 then os_path_join printed_dir basename
      else numbered printed_dir (fst (os_path_splitext basename)) (snd (os_path_splitext basename)) k)"

lemma unique_dest_free: "unique_dest ex pd base ext dest c \<notin> set ex"
  by (induction ex pd base ext dest c rule: unique_dest.induct)
     (subst unique_dest.simps, simp)

lemma archive_dest_free: "archive_dest ex pd basename \<notin> set ex"
  by (simp add: archive_dest_def unique_dest_free split: prod.splits)

lemma resolve_repeatedly_general:
  "distinct (resolve_repeatedly n ex pd basename) \<and> set (resolve_repeatedly n ex pd basename) \<inter> set ex = {}"
proof (induction n arbitrary: ex)
  case 0
  show ?case by simp
next
  case (Suc n)
  let ?d = "archive_dest ex pd basename"
  have "?d \<notin> set ex" by (rule archive_dest_free)
  moreover have "distinct (resolve_repeatedly n (?d # ex) pd basename)"
    and "set (resolve_repeatedly n (?d # ex) pd basename) \<inter> set (?d # ex) = {}"
    using Suc.IH [of "?d # ex"] by simp_all
  ultimately show ?case by (auto simp: Let_def)
qed

lemma splitext_append: "fst (os_path_splitext p) @ snd (os_path_splitext p) = p"
  by (simp add: os_path_splitext_def Let_def)

lemma os_path_join_prefix:
  "p = [] \<or> hd p \<noteq> sep \<Longrightarrow>
   os_path_join a p = (if a = [] \<or> last a = sep then a else a @ [sep]) @ p"
  by (auto simp: os_path_join_def)

lemma unique_dest_skip:
  assumes "\<forall>j. c \<le> j \<and> j < n \<longrightarrow> numbered pd base ext j \<in> set ex"
    and "numbered pd base ext n \<notin> set ex" and "dest \<in> set ex" and "c \<le> n"
  shows "unique_dest ex pd base ext dest c = numbered pd base ext n"
  using assms
proof (induction "n - c" arbitrary: c dest)
  case 0
  then have "c = n" by simp
  with 0 show ?case
    by (subst unique_dest.simps, subst unique_dest.simps) simp
next
  case (Suc d)
  then have lt: "c < n" by simp
  then have "numbered pd base ext c \<in> set ex" using Suc.prems by simp
  moreover have "d = n - (c + 1)" using Suc.hyps by simp
  ultimately have "unique_dest ex pd base ext (numbered pd base ext c) (c + 1) = numbered pd base ext n"
    using Suc.hyps(1) [of "c + 1" "numbered pd base ext c"] Suc.prems lt by simp
  then show ?case using Suc.prems by (subst unique_dest.simps) simp
qed

lemma plain_not_numbered:
  assumes "sep \<notin> set basename" and "os_path_splitext basename = (base, ext)"
  shows "os_path_join pd basename \<noteq> numbered pd base ext k"
proof -
  have be: "base @ ext = basename" using splitext_append [of basename] assms(2) by simp
  have h1: "basename = [] \<or> hd basename \<noteq> sep" using assms(1) by (cases basename) auto
  have "sep \<notin> set base" using be assms(1) by auto
  then have h2: "base @ ''_'' @ str_nat k @ ext = [] \<or> hd (base @ ''_'' @ str_nat k @ ext) \<noteq> sep"
    by (cases base) (auto simp: sep_def)
  have "length (os_path_join pd basename) \<noteq> length (numbered pd base ext k)"
    unfolding numbered_def os_path_join_prefix [OF h1] os_path_join_prefix [OF h2]
    using be by auto
  then show ?thesis by auto
qed

lemma resolve_repeatedly_fresh:
  assumes ns: "sep \<notin> set basename"
  shows "(\<forall>k<m. name_at pd basename k \<in> set ex) \<Longrightarrow> (\<forall>k\<ge>m. name_at pd basename k \<notin> set ex) \<Longrightarrow>
     resolve_repeatedly n ex pd basename = map (name_at pd basename) [m..<m + n]"
proof (induction n arbitrary: ex m)
  case 0
  show ?case by simp
next
  case (Suc n)
  obtain base ext where sp: "os_path_splitext basename = (base, ext)"
    by (cases "os_path_splitext basename")
  have na: "name_at pd basename k = (if k = 0 then os_path_join pd basename else numbered pd base ext k)" for k
    by (simp add: name_at_def sp)
  have d: "archive_dest ex pd basename = name_at pd basename m"
  proof (cases "m = 0")
    case True
    then have "name_at pd basename 0 \<notin> set ex" using Suc.prems(2) by blast
    then have "os_path_join pd basename \<notin> set ex" using na [of 0] by simp
    then show ?thesis using True
      by (simp add: archive_dest_def sp na) (subst unique_dest.simps, simp)
  next
    case False
    have a: "\<forall>j. 1 \<le> j \<and> j < m \<longrightarrow> numbered pd base ext j \<in> set ex"
      using Suc.prems(1) na by auto
    have "name_at pd basename m \<notin> set ex" using Suc.prems(2) by blast
    then have b: "numbered pd base ext m \<notin> set ex"
      using na [of m] False by simp
    have "name_at pd basename 0 \<in> set ex" using Suc.prems(1) False by blast
    then have c: "os_path_join pd basename \<in> set ex"
      using na [of 0] by simp
    have "unique_dest ex pd base ext (os_path_join pd basename) 1 = numbered pd base ext m"
      using unique_dest_skip [OF a b c] False by simp
    then show ?thesis using False by (simp add: archive_dest_def sp na)
  qed
  have inj: "j = k" if e: "name_at pd basename j = name_at pd basename k" for j k
  proof (cases "j = 0")
    case j0: True
    show ?thesis
    proof (cases "k = 0")
      case True
      with j0 show ?thesis by simp
    next
      case False
      with j0 e have "os_path_join pd basename = numbered pd base ext k"
        by (simp add: na)
      with plain_not_numbered [OF ns sp, of pd k] show ?thesis by simp
    qed
  next
    case j1: False
    show ?thesis
    proof (cases "k = 0")
      case True
      with j1 e have "os_path_join pd basename = numbered pd base ext j"
        by (simp add: na)
      with plain_not_numbered [OF ns sp, of pd j] show ?thesis by simp
    next
      case False
      with j1 e have "numbered pd base ext j = numbered pd base ext k"
        by (simp add: na)
      then show ?thesis by (rule numbered_inj)
    qed
  qed
  have 1: "\<forall>k<Suc m. name_at pd basename k \<in> set (name_at pd basename m # ex)"
    using Suc.prems(1) by (auto simp: less_Suc_eq)
  have 2: "\<forall>k\<ge>Suc m. name_at pd basename k \<notin> set (name_at pd basename m # ex)"
  proof (intro allI impI)
    fix k assume k: "Suc m \<le> k"
    then have "name_at pd basename k \<notin> set ex" using Suc.prems(2) by simp
    moreover have "name_at pd basename k \<noteq> name_at pd basename m"
      using inj [of k m] k by auto
    ultimately show "name_at pd basename k \<notin> set (name_at pd basename m # ex)" by simp
  qed
  have "resolve_repeatedly n (name_at pd basename m # ex) pd basename
          = map (name_at pd basename) [Suc m..<Suc m + n]"
    using Suc.IH [OF 1 2] .
  then show ?case
    using d by (simp add: Let_def upt_rec [of m])
qed

text \<open>
  C6. Resolving a destination for the same file name \<open>N\<close> times in the same archive
  directory, each result created before the next call, gives \<open>N\<close> distinct paths, none
  of which existed before (so nothing is overwritten); in an archive that holds none of
  the names yet, they are the plain name and then the names with \<open>_1\<close>, ...,
  \<open>_(N-1)\<close> before the extension.
\<close>

theorem naming_rule:
  assumes "sep \<notin> set basename"
  shows "distinct (resolve_repeatedly N ex printed_dir basename)
         \<and> set (resolve_repeatedly N ex printed_dir basename) \<inter> set ex = {}
         \<and> ((\<forall>k. name_at printed_dir basename k \<notin> set ex) \<longrightarrow>
              resolve_repeatedly N ex printed_dir basename
                = map (name_at printed_dir basename) [0..<N])"
proof -
  have "resolve_repeatedly N ex printed_dir basename
          = map (name_at printed_dir basename) [0..<0 + N]"
    if "\<forall>k. name_at printed_dir basename k \<notin> set ex"
    using resolve_repeatedly_fresh [OF assms, where m = 0 and ex = ex and n = N and pd = printed_dir]
      that by simp
  then show ?thesis
    using resolve_repeatedly_general [of N ex printed_dir basename] by simp
qed

theorem naming_rule_witness:
  "sep \<notin> set ''image.jpg''
   \<and> resolve_repeatedly 3 [] ''/w/printed'' ''image.jpg''
       = [''/w/printed/image.jpg'', ''/w/printed/image_1.jpg'', ''/w/printed/image_2.jpg'']"
proof -
  have h: "sep \<notin> set ''image.jpg''"
    by (simp add: sep_def)
  have n: "map (name_at ''/w/printed'' ''image.jpg'') [0..<3]
             = [''/w/printed/image.jpg'', ''/w/printed/image_1.jpg'', ''/w/printed/image_2.jpg'']"
    by code_simp
  have "resolve_repeatedly 3 [] ''/w/printed'' ''image.jpg''
          = map (name_at ''/w/printed'' ''image.jpg'') [0..<3]"
    using naming_rule [OF h, of 3 "[]" "''/w/printed''"] by simp
  with h n show ?thesis
    by simp
qed

section \<open>Which entries become candidates\<close>

text \<open>The files that \<^verbatim>\<open>shutil.move\<close> is called on, moved or not.\<close>

fun move_sources :: "effect list \<Rightarrow> path list" where
  "move_sources [] = []"
| "move_sources (Move src dst ok # es) = src # move_sources es"
| "move_sources (e # es) = move_sources es"

text \<open>A directory whose only entry is a regular file that vanishes before its time is read.\<close>

definition stat_fails :: world where
  "stat_fails =
     \<lparr> listdir = (\<lambda>d. Some [''a.png'']),
       isfile = (\<lambda>p. True),
       getmtime = (\<lambda>p. None),
       rename_self = (\<lambda>p. None),
       shutil_move = (\<lambda>src dst. True),
       existing = [] \<rparr>"

lemma endswith_iff: "endswith s suf \<longleftrightarrow> (\<exists>zs. s = zs @ suf)"
proof
  assume "endswith s suf"
  then have "s = take (length s - length suf) s @ suf"
    by (metis append_take_drop_id endswith_def)
  then show "\<exists>zs. s = zs @ suf" ..
next
  assume "\<exists>zs. s = zs @ suf"
  then show "endswith s suf" by (auto simp: endswith_def)
qed

lemma lower_char_sep: "lower_char sep = sep"
  by (simp add: lower_char_def sep_def)

lemma endswith_lower_join:
  assumes f: "sep \<notin> set f" and e: "sep \<notin> set ext"
  shows "endswith (lower (os_path_join a f)) ext \<longleftrightarrow> endswith (lower f) ext"
proof -
  define pre where "pre = (if a = [] \<or> last a = sep then a else a @ [sep])"
  have j: "os_path_join a f = pre @ f"
    using f os_path_join_prefix [of f a] by (cases f) (auto simp: pre_def)
  have pre: "pre = [] \<or> last pre = sep"
    by (auto simp: pre_def)
  show ?thesis
  proof
    assume "endswith (lower f) ext"
    then obtain zs where "lower f = zs @ ext" by (auto simp: endswith_iff)
    then have "lower (pre @ f) = (lower pre @ zs) @ ext" by (simp add: lower_def)
    then show "endswith (lower (os_path_join a f)) ext"
      unfolding j endswith_iff by blast
  next
    assume "endswith (lower (os_path_join a f)) ext"
    then obtain zs where z: "lower pre @ lower f = zs @ ext"
      by (auto simp: endswith_iff j lower_def)
    then consider us where "lower pre = zs @ us" "us @ lower f = ext"
      | us where "lower pre @ us = zs" "lower f = us @ ext"
      by (auto simp: append_eq_append_conv2)
    then show "endswith (lower f) ext"
    proof cases
      case 1
      show ?thesis
      proof (cases "us = []")
        case True
        with 1 show ?thesis by (auto simp: endswith_iff)
      next
        case False
        with 1 have ne: "pre \<noteq> []" by (auto simp: lower_def)
        with pre have "last pre = sep" by simp
        then have "last (lower pre) = sep"
          using ne by (simp add: lower_def last_map lower_char_sep)
        moreover have "last (lower pre) = last us" using 1 False by simp
        moreover have "last us \<in> set ext" using 1 False by auto
        ultimately show ?thesis using e by simp
      qed
    next
      case 2
      then show ?thesis by (auto simp: endswith_iff)
    qed
  qed
qed

lemma sep_notin_extensions: "ext \<in> set IMAGE_EXTENSIONS \<Longrightarrow> sep \<notin> set ext"
  by (auto simp: IMAGE_EXTENSIONS_def sep_def)

lemma is_image_join:
  assumes "sep \<notin> set f"
  shows "is_image (os_path_join a f) \<longleftrightarrow> endswith_any (lower f) IMAGE_EXTENSIONS"
  unfolding is_image_def endswith_any_def list_ex_iff
  using endswith_lower_join [OF assms sep_notin_extensions] by blast

lemma read_directory_paths:
  "p \<in> fst ` set (read_directory w d names) \<longleftrightarrow>
     (\<exists>f \<in> set names. p = os_path_join d f \<and> isfile w p \<and> getmtime w p \<noteq> None)"
  by (induction names) (auto simp: Let_def split: option.splits)

lemma image_files_set:
  "set (image_files fwm) = {p \<in> fst ` set fwm. is_image p}"
  by (auto simp: image_files_def)

lemma move_sources_append: "move_sources (xs @ ys) = move_sources xs @ move_sources ys"
  by (induction xs rule: move_sources.induct) simp_all

lemma move_sources_process_file: "set (move_sources (snd (process_file w pd ex f))) \<subseteq> {f}"
  by (simp add: process_file_def Let_def split: option.splits os_error.splits prod.splits)

lemma move_sources_process_files: "set (move_sources (snd (process_files w pd ex fs))) \<subseteq> set fs"
proof (induction fs arbitrary: ex)
  case Nil
  show ?case by simp
next
  case (Cons f fs)
  obtain ex1 es1 where a: "process_file w pd ex f = (ex1, es1)"
    by (cases "process_file w pd ex f")
  obtain ex2 es2 where b: "process_files w pd ex1 fs = (ex2, es2)"
    by (cases "process_files w pd ex1 fs")
  have "set (move_sources es1) \<subseteq> {f}"
    using move_sources_process_file [of w pd ex f] a by simp
  moreover have "set (move_sources es2) \<subseteq> set fs"
    using Cons.IH [of ex1] b by simp
  ultimately show ?case
    by (auto simp: a b move_sources_append)
qed

lemma move_sources_poll: "p \<in> set (move_sources (snd (poll w d pd stop))) \<Longrightarrow> is_image p"
proof (cases "listdir w d")
  case None
  assume "p \<in> set (move_sources (snd (poll w d pd stop)))"
  with None show ?thesis by (cases stop) (simp_all add: poll_def)
next
  case (Some names)
  assume m: "p \<in> set (move_sources (snd (poll w d pd stop)))"
  define files where "files = image_files (read_directory w d names)"
  have img: "\<forall>q \<in> set files. is_image q" by (simp add: files_def image_files_def)
  show ?thesis
  proof (cases stop)
    case None
    obtain ex es where r: "process_files w pd (existing w) files = (ex, es)"
      by (cases "process_files w pd (existing w) files")
    have "set (move_sources es) \<subseteq> set files"
      using move_sources_process_files [of w pd "existing w" files] r by simp
    moreover have "p \<in> set (move_sources es)"
      using m Some None r by (simp add: poll_def files_def move_sources_append)
    ultimately show ?thesis using img by auto
  next
    case (Some k)
    obtain ex es where r: "process_files w pd (existing w) (take k files) = (ex, es)"
      by (cases "process_files w pd (existing w) (take k files)")
    have "set (move_sources es) \<subseteq> set (take k files)"
      using move_sources_process_files [of w pd "existing w" "take k files"] r by simp
    moreover have "p \<in> set (move_sources es)"
      using m \<open>listdir w d = Some names\<close> Some r by (simp add: poll_def files_def move_sources_append)
    ultimately show ?thesis using img by (auto dest: in_set_takeD)
  qed
qed

lemma move_sources_loop:
  "p \<in> set (move_sources (snd (processing_loop d pd ticks))) \<Longrightarrow> is_image p"
proof (induction ticks)
  case Nil
  then show ?case by simp
next
  case (Cons t ticks)
  show ?case
  proof (cases t)
    case (Pass w)
    obtain st es where r: "processing_loop d pd ticks = (st, es)"
      by (cases "processing_loop d pd ticks")
    from Cons.prems Pass r
    have "p \<in> set (move_sources (snd (poll w d pd None))) \<or> p \<in> set (move_sources es)"
      by (simp add: move_sources_append)
    then show ?thesis
      using move_sources_poll [of p w d pd None] Cons.IH r by auto
  next
    case (Interrupted w k)
    with Cons.prems show ?thesis
      using move_sources_poll [of p w d pd "Some k"] by simp
  qed
qed

text \<open>
  C9, as stated: an entry of the listing is a candidate exactly when it is a regular
  file whose lower-cased name ends with one of the seven extensions. It fails for a
  regular image file whose modification time cannot be read: the entry is dropped in
  step 1 and is no candidate.
\<close>

theorem candidate_counterexample:
  "\<not> (os_path_join ''/w'' ''a.png'' \<in> set (image_files (read_directory stat_fails ''/w'' [''a.png'']))
       \<longleftrightarrow> isfile stat_fails (os_path_join ''/w'' ''a.png'')
            \<and> endswith_any (lower ''a.png'') IMAGE_EXTENSIONS)"
  by code_simp

text \<open>
  C9, amended. An entry \<open>f\<close> of the listing is a candidate exactly when it is a regular
  file, its modification time can be read, and its lower-cased name ends with one of
  \<^verbatim>\<open>.png .jpg .jpeg .gif .bmp .tiff .webp\<close> (the program tests the joined path, which
  comes to the same). An entry with another extension is never handed to
  \<^verbatim>\<open>shutil.move\<close>, in no pass of the loop.
\<close>

theorem candidate_selection:
  assumes "f \<in> set names" and "sep \<notin> set f"
  shows "(os_path_join d f \<in> set (image_files (read_directory w d names)) \<longleftrightarrow>
            isfile w (os_path_join d f) \<and> getmtime w (os_path_join d f) \<noteq> None
            \<and> endswith_any (lower f) IMAGE_EXTENSIONS)
         \<and> (\<not> endswith_any (lower f) IMAGE_EXTENSIONS \<longrightarrow>
              os_path_join d f \<notin> set (move_sources (snd (processing_loop d pd ticks))))"
proof -
  have "os_path_join d f \<in> fst ` set (read_directory w d names) \<longleftrightarrow>
          isfile w (os_path_join d f) \<and> getmtime w (os_path_join d f) \<noteq> None"
    unfolding read_directory_paths using assms(1) by blast
  then have 1: "os_path_join d f \<in> set (image_files (read_directory w d names)) \<longleftrightarrow>
            isfile w (os_path_join d f) \<and> getmtime w (os_path_join d f) \<noteq> None
            \<and> endswith_any (lower f) IMAGE_EXTENSIONS"
    by (auto simp: image_files_set is_image_join [OF assms(2)])
  have 2: "os_path_join d f \<notin> set (move_sources (snd (processing_loop d pd ticks)))"
    if "\<not> endswith_any (lower f) IMAGE_EXTENSIONS"
    using move_sources_loop [of "os_path_join d f" d pd ticks] that is_image_join [OF assms(2), of d]
    by blast
  from 1 2 show ?thesis by blast
qed

theorem candidate_selection_witness:
  "''notes.txt'' \<in> set [''b.PNG'', ''notes.txt'', ''a.jpg''] \<and> sep \<notin> set ''notes.txt''
   \<and> \<not> endswith_any (lower ''notes.txt'') IMAGE_EXTENSIONS
   \<and> ''/w/notes.txt''
        \<notin> set (image_files (read_directory demo_world ''/w'' [''b.PNG'', ''notes.txt'', ''a.jpg'']))
   \<and> ''/w/notes.txt''
        \<notin> set (move_sources (snd (processing_loop ''/w'' ''/w/printed''
                                      [Pass demo_world, Pass demo_world])))"
proof -
  have a: "''notes.txt'' \<in> set [''b.PNG'', ''notes.txt'', ''a.jpg'']" by simp
  have b: "sep \<notin> set ''notes.txt''" by (simp add: sep_def)
  have c: "\<not> endswith_any (lower ''notes.txt'') IMAGE_EXTENSIONS" by code_simp
  have j: "os_path_join ''/w'' ''notes.txt'' = ''/w/notes.txt''" by code_simp
  show ?thesis
    using a b c
      candidate_selection [OF a b, of "''/w''" demo_world "''/w/printed''"
        "[Pass demo_world, Pass demo_world]"]
    unfolding j by blast
qed

section \<open>The status and the listings of the loop\<close>

text \<open>Whether a pass is the interrupted one.\<close>

fun interrupted :: "tick \<Rightarrow> bool" where
  "interrupted (Interrupted w k) = True"
| "interrupted (Pass w) = False"

text \<open>The directories handed to \<^verbatim>\<open>os.listdir\<close>.\<close>

fun listed :: "effect list \<Rightarrow> path list" where
  "listed [] = []"
| "listed (ListDir d ok # es) = d # listed es"
| "listed (e # es) = listed es"

lemma loop_status:
  "fst (processing_loop d pd ticks) = (if list_ex interrupted ticks then Some 0 else None)"
proof (induction ticks)
  case Nil
  show ?case by simp
next
  case (Cons t ticks)
  then show ?case
    by (cases t) (simp_all add: Let_def split_beta)
qed

lemma process_files_step:
  "process_files w pd ex (p # rest)
     = (fst (process_files w pd (fst (process_file w pd ex p)) rest),
        snd (process_file w pd ex p) @ snd (process_files w pd (fst (process_file w pd ex p)) rest))"
  by (simp add: Let_def split: prod.splits)

lemma listed_append: "listed (xs @ ys) = listed xs @ listed ys"
  by (induction xs rule: listed.induct) simp_all

lemma listed_process_file: "listed (snd (process_file w pd ex f)) = []"
  by (simp add: process_file_def Let_def split: option.splits os_error.splits prod.splits)

lemma listed_process_files: "listed (snd (process_files w pd ex fs)) = []"
proof (induction fs arbitrary: ex)
  case Nil
  show ?case by simp
next
  case (Cons f fs)
  show ?case
    unfolding process_files_step
    by (simp add: listed_append listed_process_file Cons.IH)
qed

lemma listed_poll: "listed (snd (poll w d pd stop)) = [d]"
  by (cases "listdir w d"; cases stop)
     (simp_all add: poll_def Let_def split_beta listed_append listed_process_files)

section \<open>Exit status\<close>

text \<open>
  Start-up surroundings for the examples. In \<open>ready\<close> the argument \<^verbatim>\<open>pics/a.png\<close> is
  an existing file; in \<open>dangling\<close> every path exists but is neither a directory nor a
  file; in \<open>at_home\<close> \<^verbatim>\<open>pics\<close> is a directory and \<^verbatim>\<open>pics/a.png\<close> a file in it.
\<close>

definition ready :: startup where
  "ready =
     \<lparr> os_path_exists = (\<lambda>p. p = ''pics/a.png''),
       os_path_abspath = (\<lambda>p. Some (''/home/u/'' @ p)),
       os_path_isdir = (\<lambda>p. False),
       os_path_isfile = (\<lambda>p. p = ''/home/u/pics/a.png''),
       os_makedirs = (\<lambda>p. Created),
       instax_failure = None \<rparr>"

definition dangling :: startup where
  "dangling =
     \<lparr> os_path_exists = (\<lambda>p. True),
       os_path_abspath = (\<lambda>p. Some (''/home/u/'' @ p)),
       os_path_isdir = (\<lambda>p. False),
       os_path_isfile = (\<lambda>p. False),
       os_makedirs = (\<lambda>p. Created),
       instax_failure = None \<rparr>"

definition at_home :: startup where
  "at_home =
     \<lparr> os_path_exists = (\<lambda>p. True),
       os_path_abspath = (\<lambda>p. Some (''/home/u/'' @ p)),
       os_path_isdir = (\<lambda>p. p = ''/home/u/pics''),
       os_path_isfile = (\<lambda>p. p = ''/home/u/pics/a.png''),
       os_makedirs = (\<lambda>p. Created),
       instax_failure = None \<rparr>"

lemma watch_status:
  assumes "\<forall>p. os_makedirs env p = Created" and "instax_failure env = None"
  shows "fst (watch env target_dir ticks) = (if list_ex interrupted ticks then Some 0 else None)"
  using assms loop_status [of target_dir "os_path_join target_dir ''printed''" ticks]
  by (simp add: watch_def create_folders_def instax_setup_def Let_def split_beta)

text \<open>
  C8. Started without a path argument, \<^verbatim>\<open>main\<close> writes the error line and the usage
  line to standard error and returns 1. It returns 1 when the path does not exist, and
  when it exists but is neither a directory nor a file. Once the loop is entered (the
  folders are there and the printer is set up), a pass interrupted by
  \<^verbatim>\<open>KeyboardInterrupt\<close> makes it return 0.
\<close>

theorem exit_status:
  "(length args < 2 \<longrightarrow>
      main args env ticks
        = (Some 1,
           [Stderr ''Error: No path argument provided.'',
            Stderr ''Usage: python path_watcher.py <path_to_file_or_directory>'']))
   \<and> (2 \<le> length args \<and> \<not> os_path_exists env (args ! 1) \<longrightarrow>
        fst (main args env ticks) = Some 1)
   \<and> (2 \<le> length args \<and> os_path_exists env (args ! 1)
        \<and> os_path_abspath env (args ! 1) = Some abs_path
        \<and> \<not> os_path_isdir env abs_path \<and> \<not> os_path_isfile env abs_path \<longrightarrow>
        fst (main args env ticks) = Some 1)
   \<and> (2 \<le> length args \<and> os_path_exists env (args ! 1)
        \<and> os_path_abspath env (args ! 1) = Some abs_path
        \<and> (os_path_isdir env abs_path \<or> os_path_isfile env abs_path)
        \<and> (\<forall>p. os_makedirs env p = Created) \<and> instax_failure env = None
        \<and> list_ex interrupted ticks \<longrightarrow>
        fst (main args env ticks) = Some 0)"
proof (intro conjI impI)
  assume "length args < 2"
  then show "main args env ticks
        = (Some 1,
           [Stderr ''Error: No path argument provided.'',
            Stderr ''Usage: python path_watcher.py <path_to_file_or_directory>''])"
    by (simp add: main_def)
next
  assume "2 \<le> length args \<and> \<not> os_path_exists env (args ! 1)"
  then show "fst (main args env ticks) = Some 1"
    by (simp add: main_def)
next
  assume "2 \<le> length args \<and> os_path_exists env (args ! 1)
        \<and> os_path_abspath env (args ! 1) = Some abs_path
        \<and> \<not> os_path_isdir env abs_path \<and> \<not> os_path_isfile env abs_path"
  then show "fst (main args env ticks) = Some 1"
    by (simp add: main_def)
next
  assume a: "2 \<le> length args \<and> os_path_exists env (args ! 1)
        \<and> os_path_abspath env (args ! 1) = Some abs_path
        \<and> (os_path_isdir env abs_path \<or> os_path_isfile env abs_path)
        \<and> (\<forall>p. os_makedirs env p = Created) \<and> instax_failure env = None
        \<and> list_ex interrupted ticks"
  then have w: "fst (watch env t ticks) = Some 0" for t
    using watch_status [of env t ticks] by simp
  from a show "fst (main args env ticks) = Some 0"
    by (auto simp: main_def w)
qed

theorem exit_status_witness:
  "main [''prog''] ready []
     = (Some 1,
        [Stderr ''Error: No path argument provided.'',
         Stderr ''Usage: python path_watcher.py <path_to_file_or_directory>''])
   \<and> fst (main [''prog'', ''nowhere''] ready []) = Some 1
   \<and> fst (main [''prog'', ''x''] dangling []) = Some 1
   \<and> fst (main [''prog'', ''pics/a.png''] ready [Pass demo_world, Interrupted demo_world 1]) = Some 0"
proof -
  have 1: "main [''prog''] ready []
     = (Some 1,
        [Stderr ''Error: No path argument provided.'',
         Stderr ''Usage: python path_watcher.py <path_to_file_or_directory>''])"
    using exit_status [of "[''prog'']" ready "[]"] by simp
  have 2: "fst (main [''prog'', ''nowhere''] ready []) = Some 1"
    using exit_status [of "[''prog'', ''nowhere'']" ready "[]"] by (simp add: ready_def)
  have 3: "fst (main [''prog'', ''x''] dangling []) = Some 1"
    using exit_status [of "[''prog'', ''x'']" dangling "[]" "''/home/u/x''"]
    by (simp add: dangling_def)
  have 4: "fst (main [''prog'', ''pics/a.png''] ready [Pass demo_world, Interrupted demo_world 1])
             = Some 0"
    using exit_status [of "[''prog'', ''pics/a.png'']" ready
        "[Pass demo_world, Interrupted demo_world 1]" "''/home/u/pics/a.png''"]
    by (simp add: ready_def)
  from 1 2 3 4 show ?thesis by blast
qed

section \<open>The watched directory\<close>

lemma listed_loop: "set (listed (snd (processing_loop d pd ticks))) \<subseteq> {d}"
proof (induction ticks)
  case Nil
  show ?case by simp
next
  case (Cons t ticks)
  then show ?case
    by (cases t) (simp_all add: Let_def split_beta listed_append listed_poll)
qed

lemma listed_watch: "set (listed (snd (watch env target_dir ticks))) \<subseteq> {target_dir}"
proof -
  have "listed es = []" if "create_folders env p e = Inl es" for p e es
    using that by (auto simp: create_folders_def makedirs_failed_def split: if_splits)
  moreover have "listed es = []" if "create_folders env p e = Inr es" for p e es
    using that by (auto simp: create_folders_def split: if_splits)
  moreover have "listed es = []" if "instax_setup f = Inl es" for f es
    using that by (auto simp: instax_setup_def Let_def split: option.splits instax_step.splits)
  moreover have "listed es = []" if "instax_setup f = Inr es" for f es
    using that by (auto simp: instax_setup_def Let_def split: option.splits instax_step.splits)
  ultimately show ?thesis
    using listed_loop [of target_dir "os_path_join target_dir ''printed''" ticks]
    by (auto simp: watch_def Let_def split_beta listed_append split: sum.splits)
qed

text \<open>
  C10. When the path argument resolves to a directory, \<^verbatim>\<open>main\<close> goes on with that
  directory; when it resolves to a file that is not a directory, with the parent
  directory of the file. The directory it goes on with is the only one it lists.
\<close>

theorem watched_directory:
  assumes "2 \<le> length args" and "os_path_exists env (args ! 1)"
    and "os_path_abspath env (args ! 1) = Some abs_path"
  shows "(os_path_isdir env abs_path \<longrightarrow> main args env ticks = watch env abs_path ticks)
         \<and> (\<not> os_path_isdir env abs_path \<and> os_path_isfile env abs_path \<longrightarrow>
               main args env ticks = watch env (os_path_dirname abs_path) ticks)
         \<and> set (listed (snd (watch env target_dir ticks))) \<subseteq> {target_dir}"
  using assms listed_watch [of env target_dir ticks] by (simp add: main_def)

theorem watched_directory_witness:
  "listed (snd (main [''prog'', ''pics/a.png''] at_home [Pass demo_world])) = [''/home/u/pics'']
   \<and> listed (snd (main [''prog'', ''pics''] at_home [Pass demo_world])) = [''/home/u/pics'']"
proof -
  have f: "main [''prog'', ''pics/a.png''] at_home [Pass demo_world]
             = watch at_home (os_path_dirname ''/home/u/pics/a.png'') [Pass demo_world]"
    using watched_directory [of "[''prog'', ''pics/a.png'']" at_home "''/home/u/pics/a.png''"]
    by (simp add: at_home_def)
  have d: "main [''prog'', ''pics''] at_home [Pass demo_world]
             = watch at_home ''/home/u/pics'' [Pass demo_world]"
    using watched_directory [of "[''prog'', ''pics'']" at_home "''/home/u/pics''"]
    by (simp add: at_home_def)
  have n: "os_path_dirname ''/home/u/pics/a.png'' = ''/home/u/pics''"
    by code_simp
  have l: "listed (snd (watch at_home ''/home/u/pics'' [Pass demo_world])) = [''/home/u/pics'']"
    by code_simp
  show ?thesis
    unfolding f d n using l by simp
qed

section \<open>What happens to an available file\<close>

text \<open>The reads of a file's bytes and the submissions to the printer among the effects.\<close>

fun handoffs :: "effect list \<Rightarrow> effect list" where
  "handoffs [] = []"
| "handoffs (ReadFile p # es) = ReadFile p # handoffs es"
| "handoffs (PrintImage b # es) = PrintImage b # handoffs es"
| "handoffs (e # es) = handoffs es"

lemma handoffs_append: "handoffs (xs @ ys) = handoffs xs @ handoffs ys"
  by (induction xs rule: handoffs.induct) simp_all

lemma handoffs_process_file: "handoffs (snd (process_file w pd ex f)) = []"
  by (simp add: process_file_def Let_def split: option.splits os_error.splits prod.splits)

lemma handoffs_process_files: "handoffs (snd (process_files w pd ex fs)) = []"
proof (induction fs arbitrary: ex)
  case Nil
  show ?case by simp
next
  case (Cons f fs)
  show ?case
    unfolding process_files_step
    by (simp add: handoffs_append handoffs_process_file Cons.IH)
qed

lemma handoffs_poll: "handoffs (snd (poll w d pd stop)) = []"
  by (cases "listdir w d"; cases stop)
     (simp_all add: poll_def Let_def split_beta handoffs_append handoffs_process_files)

lemma handoffs_loop: "handoffs (snd (processing_loop d pd ticks)) = []"
proof (induction ticks)
  case Nil
  show ?case by simp
next
  case (Cons t ticks)
  then show ?case
    by (cases t) (simp_all add: Let_def split_beta handoffs_append handoffs_poll)
qed

lemma handoffs_watch: "handoffs (snd (watch env target_dir ticks)) = []"
proof -
  have "handoffs es = []" if "create_folders env p e = Inl es" for p e es
    using that by (auto simp: create_folders_def makedirs_failed_def split: if_splits)
  moreover have "handoffs es = []" if "create_folders env p e = Inr es" for p e es
    using that by (auto simp: create_folders_def split: if_splits)
  moreover have "handoffs es = []" if "instax_setup f = Inl es" for f es
    using that by (auto simp: instax_setup_def Let_def split: option.splits instax_step.splits)
  moreover have "handoffs es = []" if "instax_setup f = Inr es" for f es
    using that by (auto simp: instax_setup_def Let_def split: option.splits instax_step.splits)
  ultimately show ?thesis
    using handoffs_loop [of target_dir "os_path_join target_dir ''printed''" ticks]
    by (auto simp: watch_def Let_def split_beta handoffs_append split: sum.splits)
qed

lemma handoffs_main: "handoffs (snd (main args env ticks)) = []"
  by (simp add: main_def Let_def handoffs_watch split: option.splits)

lemma unique_dest_shape:
  "(\<exists>name. dest = os_path_join pd name) \<Longrightarrow>
     \<exists>name. unique_dest ex pd base ext dest c = os_path_join pd name"
proof (induction ex pd base ext dest c rule: unique_dest.induct)
  case (1 ex printed_dir base ext dest_path counter)
  show ?case
  proof (cases "dest_path \<in> set ex")
    case True
    have "\<exists>name. numbered printed_dir base ext counter = os_path_join printed_dir name"
      unfolding numbered_def by blast
    then show ?thesis
      using 1(1) [OF True] True by (subst unique_dest.simps) simp
  next
    case False
    then show ?thesis
      using 1(2) by (subst unique_dest.simps) simp
  qed
qed

lemma archive_dest_shape: "\<exists>name. archive_dest ex pd basename = os_path_join pd name"
  unfolding archive_dest_def Let_def split_beta
  by (rule unique_dest_shape) blast

text \<open>
  C1, as stated: a file found available is read, transformed and submitted to the
  printer before it is relocated, and it goes to the printed archive only when the
  submission succeeded. In the example pass both image files are available and both are
  moved into the printed archive, while nothing is read and nothing is submitted.
\<close>

theorem print_handoff_counterexample:
  "rename_self demo_world ''/w/a.jpg'' = None
   \<and> snd (poll demo_world ''/w'' ''/w/printed'' None)
       = [ListDir ''/w'' True,
          Rename ''/w/a.jpg'' ''/w/a.jpg'' None, Move ''/w/a.jpg'' ''/w/printed/a.jpg'' True, Sleep 1,
          Rename ''/w/b.PNG'' ''/w/b.PNG'' None, Move ''/w/b.PNG'' ''/w/printed/b.PNG'' True, Sleep 1,
          Sleep 1]
   \<and> handoffs (snd (poll demo_world ''/w'' ''/w/printed'' None)) = []"
  by code_simp

text \<open>
  C1, amended. The program never reads a file's bytes and never submits anything to
  the printer. A file found available is given a destination in the printed archive
  by the naming rule, a path that does not exist yet, and \<^verbatim>\<open>shutil.move\<close> is called
  with it. When the move succeeds the file is in the printed archive; when it raises,
  the error is reported on standard error and the file stays where it is.
\<close>

theorem available_file_is_archived:
  "handoffs (snd (main args env ticks)) = []
   \<and> (rename_self w p = None \<longrightarrow>
        (let dest = archive_dest ex pd (os_path_basename p)
         in dest \<notin> set ex \<and> (\<exists>name. dest = os_path_join pd name)
            \<and> process_file w pd ex p
                 = (if shutil_move w p dest
                    then (dest # removeAll p ex, [Rename p p None, Move p dest True, Sleep 1])
                    else (ex, [Rename p p None, Move p dest False,
                               Stderr (''Error moving '' @ quoted (os_path_basename p) @ '': ''),
                               Sleep 1]))))"
  using handoffs_main [of args env ticks] archive_dest_free [of ex pd "os_path_basename p"]
    archive_dest_shape [of ex pd "os_path_basename p"]
  by (simp add: process_file_def Let_def)

theorem available_file_is_archived_witness:
  "rename_self demo_world ''/w/a.jpg'' = None
   \<and> process_file demo_world ''/w/printed'' [''/w/printed/a.jpg''] ''/w/a.jpg''
       = (''/w/printed/a_1.jpg'' # [''/w/printed/a.jpg''],
          [Rename ''/w/a.jpg'' ''/w/a.jpg'' None,
           Move ''/w/a.jpg'' ''/w/printed/a_1.jpg'' True, Sleep 1])"
proof -
  have h: "rename_self demo_world ''/w/a.jpg'' = None"
    by (simp add: demo_world_def)
  have d: "archive_dest [''/w/printed/a.jpg''] ''/w/printed'' (os_path_basename ''/w/a.jpg'')
             = ''/w/printed/a_1.jpg''"
    by code_simp
  have m: "shutil_move demo_world ''/w/a.jpg'' ''/w/printed/a_1.jpg''"
    by (simp add: demo_world_def)
  show ?thesis
    using h m available_file_is_archived [of "[]" ready "[]" demo_world "''/w/a.jpg''"
        "[''/w/printed/a.jpg'']" "''/w/printed''"]
    unfolding d Let_def by simp
qed

section \<open>Standard output\<close>

text \<open>
  The loop once more, now with the lines it prints on standard output. \<open>out line\<close>
  tells whether \<^verbatim>\<open>print(line)\<close> succeeds; when it does not, \<^verbatim>\<open>print\<close> raises (a
  \<^verbatim>\<open>UnicodeEncodeError\<close> for a name the stream cannot encode). A turn of the loop ends
  normally or with an exception that no handler of the turn catches.
\<close>

datatype flow = Normal | Propagated

text \<open>How \<^verbatim>\<open>main\<close> ends: still in the loop, returned a status, or left by an exception.\<close>

datatype ending = Running | Returned int | Uncaught

text \<open>The line of the three \<^verbatim>\<open>except\<close> clauses of the probe.\<close>

definition skipping :: "path \<Rightarrow> string \<Rightarrow> string" where
  "skipping file_path reason =
     ''Skipping '' @ quoted (os_path_basename file_path) @ '': '' @ reason"

text \<open>
  One turn of the \<^verbatim>\<open>for\<close> loop. The prints in the \<^verbatim>\<open>except\<close> clauses of the probe
  and the print of \<^verbatim>\<open>Processing:\<close> stand in no \<^verbatim>\<open>try\<close>; the print of
  \<^verbatim>\<open>Moved to:\<close> stands in the \<^verbatim>\<open>try\<close> of the move, whose handler reports on
  standard error.
\<close>

definition process_file_out ::
  "(string \<Rightarrow> bool) \<Rightarrow> world \<Rightarrow> path \<Rightarrow> path list \<Rightarrow> path \<Rightarrow> flow \<times> path list \<times> effect list" where
  "process_file_out out w printed_dir ex file_path =
     (case rename_self w file_path of
        Some PermissionError \<Rightarrow>
          (let line = skipping file_path ''File is in use.''
           in if out line
              then (Normal, ex,
                    [Rename file_path file_path (Some PermissionError), Stdout line, Sleep 1])
              else (Propagated, ex, [Rename file_path file_path (Some PermissionError)]))
      | Some FileNotFoundError \<Rightarrow>
          (let line = skipping file_path ''File was moved or deleted.''
           in if out line
              then (Normal, ex, [Rename file_path file_path (Some FileNotFoundError), Stdout line])
              else (Propagated, ex, [Rename file_path file_path (Some FileNotFoundError)]))
      | Some OtherOSError \<Rightarrow>
          (let line = skipping file_path ''OS error ().''
           in if out line
              then (Normal, ex,
                    [Rename file_path file_path (Some OtherOSError), Stdout line, Sleep 1])
              else (Propagated, ex, [Rename file_path file_path (Some OtherOSError)]))
      | None \<Rightarrow>
          (let basename = os_path_basename file_path;
               line = ''Processing: '' @ basename
           in if \<not> out line then (Propagated, ex, [Rename file_path file_path None])
              else
                (let dest_path = archive_dest ex printed_dir basename;
                     failed = Stderr (''Error moving '' @ quoted basename @ '': '');
                     moved = ''Moved to: '' @ os_path_basename dest_path
                 in if shutil_move w file_path dest_path
                    then (Normal, dest_path # removeAll file_path ex,
                          [Rename file_path file_path None, Stdout line,
                           Move file_path dest_path True,
                           if out moved then Stdout moved else failed, Sleep 1])
                    else (Normal, ex,
                          [Rename file_path file_path None, Stdout line,
                           Move file_path dest_path False, failed, Sleep 1]))))"

fun process_files_out ::
  "(string \<Rightarrow> bool) \<Rightarrow> world \<Rightarrow> path \<Rightarrow> path list \<Rightarrow> path list \<Rightarrow> flow \<times> path list \<times> effect list" where
  "process_files_out out w printed_dir ex [] = (Normal, ex, [])"
| "process_files_out out w printed_dir ex (file_path # rest) =
     (case process_file_out out w printed_dir ex file_path of
        (Propagated, ex1, es1) \<Rightarrow> (Propagated, ex1, es1)
      | (Normal, ex1, es1) \<Rightarrow>
          (let (f, ex2, es2) = process_files_out out w printed_dir ex1 rest
           in (f, ex2, es1 @ es2)))"

text \<open>One pass, with the line that counts the images when there are any.\<close>

definition poll_out ::
  "(string \<Rightarrow> bool) \<Rightarrow> world \<Rightarrow> path \<Rightarrow> path \<Rightarrow> nat option \<Rightarrow> flow \<times> path list \<times> effect list" where
  "poll_out out w target_dir printed_dir stop =
     (case listdir w target_dir of
        None \<Rightarrow>
          (Normal, existing w,
           [ListDir target_dir False,
            Stderr (''Error reading directory '' @ quoted target_dir @ '': '')]
           @ (if stop = None then [Sleep 5] else []))
      | Some names \<Rightarrow>
          (let files = image_files (read_directory w target_dir names);
               line = ''Found '' @ str_nat (length files) @ '' image(s) to process...''
           in if files \<noteq> [] \<and> \<not> out line
              then (Propagated, existing w, [ListDir target_dir True])
              else
                (let found = (if files \<noteq> [] then [Stdout line] else []);
                     todo = (case stop of None \<Rightarrow> files | Some k \<Rightarrow> take k files);
                     (f, ex, es) = process_files_out out w printed_dir (existing w) todo
                 in (f, ex,
                     ListDir target_dir True # found @ es
                     @ (if f = Normal \<and> stop = None then [Sleep 1] else [])))))"

text \<open>
  The loop. Only \<^verbatim>\<open>KeyboardInterrupt\<close> is caught around it, and its handler prints
  before it returns 0.
\<close>

fun processing_loop_out ::
  "(string \<Rightarrow> bool) \<Rightarrow> path \<Rightarrow> path \<Rightarrow> tick list \<Rightarrow> ending \<times> effect list" where
  "processing_loop_out out target_dir printed_dir [] = (Running, [])"
| "processing_loop_out out target_dir printed_dir (Pass w # ticks) =
     (case poll_out out w target_dir printed_dir None of
        (Propagated, ex, es) \<Rightarrow> (Uncaught, es)
      | (Normal, ex, es) \<Rightarrow>
          (let (end, es') = processing_loop_out out target_dir printed_dir ticks
           in (end, es @ es')))"
| "processing_loop_out out target_dir printed_dir (Interrupted w k # ticks) =
     (case poll_out out w target_dir printed_dir (Some k) of
        (Propagated, ex, es) \<Rightarrow> (Uncaught, es)
      | (Normal, ex, es) \<Rightarrow>
          (let line = CHR 0x0A # ''Termination signal (Ctrl-C) received. Exiting gracefully.''
           in if out line then (Returned 0, es @ [Stdout line]) else (Uncaught, es)))"

text \<open>The effects without the lines on standard output.\<close>

fun silent :: "effect list \<Rightarrow> effect list" where
  "silent [] = []"
| "silent (Stdout line # es) = silent es"
| "silent (e # es) = e # silent es"

text \<open>A standard output that encodes ASCII only.\<close>

definition ascii_only :: "string \<Rightarrow> bool" where
  "ascii_only line = list_all (\<lambda>c. (of_char c :: nat) < 128) line"

text \<open>A directory with one available image file, named \<^verbatim>\<open>e-acute.png\<close> in UTF-8.\<close>

definition accented :: world where
  "accented =
     \<lparr> listdir = (\<lambda>d. Some [[CHR 0xC3, CHR 0xA9] @ ''.png'']),
       isfile = (\<lambda>p. True),
       getmtime = (\<lambda>p. Some 1),
       rename_self = (\<lambda>p. None),
       shutil_move = (\<lambda>src dst. True),
       existing = [] \<rparr>"

text \<open>
  When standard output accepts every line, the loop with its prints does what the
  loop of the earlier sections does.
\<close>

lemma silent_append: "silent (xs @ ys) = silent xs @ silent ys"
  by (induction xs rule: silent.induct) simp_all

lemma process_file_out_accepting:
  assumes "\<forall>line. out line"
  shows "\<exists>es. process_file_out out w pd ex p = (Normal, fst (process_file w pd ex p), es)
              \<and> silent es = snd (process_file w pd ex p)"
  using assms
  by (simp add: process_file_out_def process_file_def Let_def
           split: option.splits os_error.splits)

lemma process_files_out_accepting:
  assumes "\<forall>line. out line"
  shows "\<exists>es. process_files_out out w pd ex fs = (Normal, fst (process_files w pd ex fs), es)
              \<and> silent es = snd (process_files w pd ex fs)"
proof (induction fs arbitrary: ex)
  case Nil
  show ?case by simp
next
  case (Cons f fs)
  obtain es1 where a: "process_file_out out w pd ex f = (Normal, fst (process_file w pd ex f), es1)"
    and a': "silent es1 = snd (process_file w pd ex f)"
    using process_file_out_accepting [OF assms] by blast
  obtain es2 where b: "process_files_out out w pd (fst (process_file w pd ex f)) fs
        = (Normal, fst (process_files w pd (fst (process_file w pd ex f)) fs), es2)"
    and b': "silent es2 = snd (process_files w pd (fst (process_file w pd ex f)) fs)"
    using Cons.IH by blast
  show ?case
    unfolding process_files_step
    by (simp add: a b a' b' silent_append)
qed

lemma poll_out_accepting:
  assumes "\<forall>line. out line"
  shows "\<exists>es. poll_out out w d pd stop = (Normal, fst (poll w d pd stop), es)
              \<and> silent es = snd (poll w d pd stop)"
proof (cases "listdir w d")
  case None
  then show ?thesis by (simp add: poll_out_def poll_def)
next
  case (Some names)
  define files where "files = image_files (read_directory w d names)"
  define todo where "todo = (case stop of None \<Rightarrow> files | Some k \<Rightarrow> take k files)"
  obtain es where a: "process_files_out out w pd (existing w) todo
        = (Normal, fst (process_files w pd (existing w) todo), es)"
    and a': "silent es = snd (process_files w pd (existing w) todo)"
    using process_files_out_accepting [OF assms] by blast
  show ?thesis
    using Some assms a a'
    by (cases stop)
       (simp_all add: poll_out_def poll_def Let_def split_beta silent_append
          files_def [symmetric] todo_def)
qed

lemma processing_loop_out_accepting:
  assumes "\<forall>line. out line"
  shows "\<exists>es. processing_loop_out out d pd ticks
                = (case fst (processing_loop d pd ticks) of
                     None \<Rightarrow> Running | Some status \<Rightarrow> Returned status, es)
              \<and> silent es = snd (processing_loop d pd ticks)"
proof (induction ticks)
  case Nil
  show ?case by simp
next
  case (Cons t ticks)
  show ?case
  proof (cases t)
    case (Pass w)
    obtain es1 where a: "poll_out out w d pd None = (Normal, fst (poll w d pd None), es1)"
      and a': "silent es1 = snd (poll w d pd None)"
      using poll_out_accepting [OF assms] by blast
    from Cons.IH obtain es2 where b: "processing_loop_out out d pd ticks
                = (case fst (processing_loop d pd ticks) of
                     None \<Rightarrow> Running | Some status \<Rightarrow> Returned status, es2)"
      and b': "silent es2 = snd (processing_loop d pd ticks)"
      by blast
    show ?thesis
      using Pass a a' b b' by (simp add: Let_def split_beta silent_append)
  next
    case (Interrupted w k)
    obtain es1 where a: "poll_out out w d pd (Some k) = (Normal, fst (poll w d pd (Some k)), es1)"
      and a': "silent es1 = snd (poll w d pd (Some k))"
      using poll_out_accepting [OF assms] by blast
    have o: "out (CHR 0x0A # ''Termination signal (Ctrl-C) received. Exiting gracefully.'')"
      using assms by blast
    show ?thesis
      using Interrupted a a' o by (simp add: Let_def silent_append)
  qed
qed

text \<open>
  C7. The claim that no error arising from the processing of one file ends the loop
  fails on the code: with a standard output that cannot encode the name of the one
  image file, the print of \<^verbatim>\<open>Processing:\<close> raises outside every handler, and the
  first pass leaves the loop and \<^verbatim>\<open>main\<close>; the second pass never runs and the file is
  not moved.
\<close>

theorem unprintable_name_ends_the_loop:
  "processing_loop_out ascii_only ''/w'' ''/w/printed'' [Pass accented, Pass accented]
     = (Uncaught,
        [ListDir ''/w'' True, Stdout ''Found 1 image(s) to process...'',
         Rename (''/w/'' @ [CHR 0xC3, CHR 0xA9] @ ''.png'')
                (''/w/'' @ [CHR 0xC3, CHR 0xA9] @ ''.png'') None])"
  by code_simp

section \<open>Floating point\<close>

text \<open>
  Python's \<^verbatim>\<open>float\<close> is the IEEE 754 binary64 format. A float is taken as the rational
  number it stands for, and \<open>fl x\<close> is the float nearest to the rational \<open>x\<close>, the one
  with the even significand when two are equally near: the significand has 53 bits. The
  exponent is not bounded, so \<open>fl\<close> is the rounding of binary64 wherever the result is
  neither too large nor too small for the format, as it is for every quotient and
  product of image dimensions met here.
\<close>

text \<open>Rounding to the nearest integer, a tie to the even one.\<close>

definition round_half_even :: "rat \<Rightarrow> int" where
  "round_half_even x =
     (let f = \<lfloor>x\<rfloor>; d = x - of_int f
      in if d < 1 / 2 then f
         else if 1 / 2 < d then f + 1
         else if even f then f else f + 1)"

text \<open>The number of binary digits of a positive integer.\<close>

function bitlen :: "int \<Rightarrow> nat" where
  "bitlen n = (if n \<le> 0 then 0 else Suc (bitlen (n div 2)))"
  by pat_completeness auto
termination
  by (relation "measure nat") auto

declare bitlen.simps [simp del]

text \<open>For \<open>x > 0\<close>, the exponent \<open>e\<close> with \<open>2 ^ e \<le> x < 2 ^ (e + 1)\<close>.\<close>

definition ilog2 :: "rat \<Rightarrow> int" where
  "ilog2 x =
     (if 1 \<le> x then int (bitlen \<lfloor>x\<rfloor>) - 1
      else - int (bitlen (\<lceil>1 / x\<rceil> - 1)))"

definition fl :: "rat \<Rightarrow> rat" where
  "fl x =
     (if x = 0 then 0
      else let e = ilog2 \<bar>x\<bar>;
               m = round_half_even (\<bar>x\<bar> * 2 powi (52 - e))
           in sgn x * of_int m * 2 powi (e - 52))"

text \<open>\<^verbatim>\<open>int(x)\<close> for a float: truncation toward zero.\<close>

definition py_int :: "rat \<Rightarrow> int" where
  "py_int x = (if 0 \<le> x then \<lfloor>x\<rfloor> else \<lceil>x\<rceil>)"

section \<open>The Transformer\<close>

text \<open>
  The exceptions of \<^verbatim>\<open>crop_and_resize_image\<close>: the image cannot be decoded, a division
  by zero, and an exception raised inside the imaging library.
\<close>

datatype transform_error = UnidentifiedImageError | ZeroDivisionError | LibraryError

text \<open>
  The arithmetic of the function. \<^verbatim>\<open>a / b\<close> on two integers is the correctly rounded
  quotient; an integer that meets a float is converted first.
\<close>

definition int_truediv :: "int \<Rightarrow> int \<Rightarrow> transform_error + rat" where
  "int_truediv a b = (if b = 0 then Inl ZeroDivisionError else Inr (fl (of_int a / of_int b)))"

definition float_of_int :: "int \<Rightarrow> rat" where
  "float_of_int n = fl (of_int n)"

definition float_mul :: "rat \<Rightarrow> rat \<Rightarrow> rat" where
  "float_mul a b = fl (a * b)"

definition float_add :: "rat \<Rightarrow> rat \<Rightarrow> rat" where
  "float_add a b = fl (a + b)"

definition float_truediv :: "rat \<Rightarrow> rat \<Rightarrow> transform_error + rat" where
  "float_truediv a b = (if b = 0 then Inl ZeroDivisionError else Inr (fl (a / b)))"

text \<open>The rectangle \<^verbatim>\<open>(left, top, right, bottom)\<close> handed to \<^verbatim>\<open>image.crop\<close>.\<close>

type_synonym box = "rat \<times> rat \<times> rat \<times> rat"

text \<open>
  Lines 27 to 48 of \<^verbatim>\<open>crop_and_resize_image\<close>, for an image of the given width and
  height: the two aspect ratios, the branch, and the rectangle.
\<close>

definition crop_box :: "int \<Rightarrow> int \<Rightarrow> int \<Rightarrow> int \<Rightarrow> transform_error + box" where
  "crop_box target_x target_y image_width image_height =
     (case int_truediv target_x target_y of
        Inl e \<Rightarrow> Inl e
      | Inr target_aspect \<Rightarrow>
     (case int_truediv image_width image_height of
        Inl e \<Rightarrow> Inl e
      | Inr current_aspect \<Rightarrow>
          if target_aspect < current_aspect
          then
            (let new_width = py_int (float_mul target_aspect (float_of_int image_height))
             in case int_truediv (image_width - new_width) 2 of
                  Inl e \<Rightarrow> Inl e
                | Inr left \<Rightarrow>
                    (let top' = 0;
                         right = float_add left (float_of_int new_width);
                         bottom = of_int image_height
                     in Inr (left, top', right, bottom)))
          else
            (case float_truediv (float_of_int image_width) target_aspect of
               Inl e \<Rightarrow> Inl e
             | Inr q \<Rightarrow>
                 (let new_height = py_int q
                  in case int_truediv (image_height - new_height) 2 of
                       Inl e \<Rightarrow> Inl e
                     | Inr top' \<Rightarrow>
                         (let left = 0;
                              right = of_int image_width;
                              bottom = float_add top' (float_of_int new_height)
                          in Inr (left, top', right, bottom))))))"

text \<open>
  A decoded image, as far as the function looks at it: its size. The imaging library
  is a parameter: \<^verbatim>\<open>Image.open\<close> on a byte buffer, \<^verbatim>\<open>crop\<close>, \<^verbatim>\<open>resize\<close>, and
  \<^verbatim>\<open>save\<close> into a byte buffer in the PNG format; \<open>None\<close> is a raised exception.
\<close>

record image =
  width :: int
  height :: int




section \<open>Rounding\<close>

lemma round_half_even_cases:
  "round_half_even y = \<lfloor>y\<rfloor> \<or> round_half_even y = \<lfloor>y\<rfloor> + 1"
  by (simp add: round_half_even_def Let_def)

lemma round_half_even_error: "\<bar>of_int (round_half_even y) - y\<bar> \<le> 1 / 2"
proof -
  define d where "d = y - of_int \<lfloor>y\<rfloor>"
  have d: "0 \<le> d" "d < 1"
    unfolding d_def by linarith+
  have y: "y = of_int \<lfloor>y\<rfloor> + d"
    by (simp add: d_def)
  show ?thesis
  proof (cases "d < 1 / 2")
    case True
    then have "round_half_even y = \<lfloor>y\<rfloor>"
      by (simp add: round_half_even_def Let_def d_def)
    then show ?thesis using True d y by simp
  next
    case False
    show ?thesis
    proof (cases "1 / 2 < d")
      case True
      then have "round_half_even y = \<lfloor>y\<rfloor> + 1"
        using False by (simp add: round_half_even_def Let_def d_def)
      then show ?thesis using True d y by simp
    next
      case nt: False
      with False have "d = 1 / 2" by simp
      then show ?thesis
        using round_half_even_cases [of y] y by auto
    qed
  qed
qed

lemma round_half_even_of_int: "round_half_even (of_int n) = n"
  by (simp add: round_half_even_def)

lemma round_half_even_ge:
  assumes "of_int n \<le> y"
  shows "n \<le> round_half_even y"
proof -
  have "n \<le> \<lfloor>y\<rfloor>" using assms by (simp add: le_floor_iff)
  then show ?thesis using round_half_even_cases [of y] by auto
qed

lemma two_powi_pos: "0 < (2::rat) powi e"
  by simp

lemma two_powi_inverse: "(2::rat) powi (e - 52) * 2 powi (52 - e) = 1"
proof -
  have "(2::rat) powi ((e - 52) + (52 - e)) = 2 powi (e - 52) * 2 powi (52 - e)"
    by (rule power_int_add) simp
  then show ?thesis by simp
qed

lemma bitlen_bounds:
  "0 < n \<Longrightarrow> 2 ^ (bitlen n - 1) \<le> n \<and> n < 2 ^ bitlen n"
proof (induction n rule: bitlen.induct)
  case (1 n)
  show ?case
  proof (cases "n = 1")
    case True
    have "bitlen 1 = 1"
      by (subst bitlen.simps, subst bitlen.simps) simp
    with True show ?thesis by simp
  next
    case False
    with 1(2) have h: "0 < n div 2" by simp
    define b where "b = bitlen (n div 2)"
    have ih: "2 ^ (b - 1) \<le> n div 2" "n div 2 < 2 ^ b"
      using 1(1) 1(2) h by (simp_all add: b_def)
    have b: "0 < b"
      using h unfolding b_def by (subst bitlen.simps) simp
    have bn: "bitlen n = Suc b"
      using 1(2) unfolding b_def by (subst bitlen.simps) simp
    have "2 * 2 ^ (b - 1) = (2::int) ^ b"
      using b by (cases b) simp_all
    then have lo: "2 ^ b \<le> n" using ih(1) by linarith
    have "n div 2 + 1 \<le> 2 ^ b" using ih(2) by simp
    then have hi: "n < 2 * 2 ^ b" by linarith
    show ?thesis using lo hi by (simp add: bn)
  qed
qed

lemma ilog2_lower:
  assumes "0 < x"
  shows "2 powi (ilog2 x) \<le> x"
proof (cases "1 \<le> x")
  case True
  define n where "n = \<lfloor>x\<rfloor>"
  have n: "0 < n" using True by (simp add: n_def)
  have K: "0 < bitlen n"
    using n by (subst bitlen.simps) simp
  have "2 ^ (bitlen n - 1) \<le> n"
    using bitlen_bounds [OF n] by simp
  then have "(of_int (2 ^ (bitlen n - 1)) :: rat) \<le> of_int n"
    by (simp only: of_int_le_iff)
  then have "(2::rat) ^ (bitlen n - 1) \<le> of_int n"
    by (simp only: of_int_power of_int_numeral)
  moreover have "(of_int n :: rat) \<le> x"
    by (simp add: n_def)
  ultimately have "(2::rat) ^ (bitlen n - 1) \<le> x"
    by (rule order_trans)
  moreover have "int (bitlen n) - 1 = int (bitlen n - 1)"
    using K by simp
  ultimately have "(2::rat) powi (int (bitlen n) - 1) \<le> x"
    by (simp only: power_int_of_nat)
  then show ?thesis
    using True by (simp only: ilog2_def n_def if_True)
next
  case False
  define m where "m = \<lceil>1 / x\<rceil> - 1"
  define k where "k = bitlen m"
  have "1 < 1 / x" using False assms by simp
  then have "2 \<le> \<lceil>1 / x\<rceil>" by linarith
  then have m: "0 < m" by (simp add: m_def)
  have "m < 2 ^ k"
    using bitlen_bounds [OF m] by (simp add: k_def)
  then have "\<lceil>1 / x\<rceil> \<le> 2 ^ k"
    by (simp add: m_def)
  then have "1 / x \<le> of_int (2 ^ k)"
    by (simp only: ceiling_le_iff)
  then have "1 / x \<le> 2 ^ k" by simp
  then have "1 \<le> 2 ^ k * x"
    using assms by (simp add: pos_divide_le_eq)
  then have "1 / 2 ^ k \<le> x"
    by (simp add: pos_divide_le_eq mult.commute)
  moreover have "(2::rat) powi (- int k) = 1 / 2 ^ k"
    by (simp add: power_int_minus divide_inverse)
  ultimately have "(2::rat) powi (- int k) \<le> x" by simp
  then show ?thesis
    using False by (simp only: ilog2_def m_def k_def if_False)
qed

lemma ilog2_upper:
  assumes "0 < x"
  shows "x < 2 powi (ilog2 x + 1)"
proof (cases "1 \<le> x")
  case True
  define n where "n = \<lfloor>x\<rfloor>"
  have n: "0 < n" using True by (simp add: n_def)
  have "n < 2 ^ bitlen n"
    using bitlen_bounds [OF n] by simp
  then have "n + 1 \<le> 2 ^ bitlen n" by simp
  then have "(of_int (n + 1) :: rat) \<le> of_int (2 ^ bitlen n)"
    by (simp only: of_int_le_iff)
  then have "(of_int n :: rat) + 1 \<le> 2 ^ bitlen n"
    by simp
  moreover have "x < of_int n + 1"
    unfolding n_def by linarith
  ultimately have "x < (2::rat) ^ bitlen n" by simp
  then have "x < (2::rat) powi (int (bitlen n))"
    by (simp only: power_int_of_nat)
  then show ?thesis
    using True by (simp add: ilog2_def n_def)
next
  case False
  define m where "m = \<lceil>1 / x\<rceil> - 1"
  define k where "k = bitlen m"
  have "1 < 1 / x" using False assms by simp
  then have "2 \<le> \<lceil>1 / x\<rceil>" by linarith
  then have m: "0 < m" by (simp add: m_def)
  have k: "0 < k"
    unfolding k_def using m by (subst bitlen.simps) simp
  have "2 ^ (k - 1) \<le> m"
    using bitlen_bounds [OF m] by (simp add: k_def)
  then have "(of_int (2 ^ (k - 1)) :: rat) \<le> of_int m"
    by (simp only: of_int_le_iff)
  then have "(2::rat) ^ (k - 1) \<le> of_int m"
    by (simp only: of_int_power of_int_numeral)
  moreover have "(of_int m :: rat) < 1 / x"
    unfolding m_def by simp linarith
  ultimately have "(2::rat) ^ (k - 1) < 1 / x" by (rule le_less_trans)
  then have "2 ^ (k - 1) * x < 1"
    using assms by (simp add: pos_less_divide_eq)
  then have "x < 1 / 2 ^ (k - 1)"
    by (simp add: pos_less_divide_eq mult.commute)
  moreover have "(2::rat) powi (- int k + 1) = 1 / 2 ^ (k - 1)"
  proof -
    have "- int k + 1 = - int (k - 1)" using k by simp
    then have "(2::rat) powi (- int k + 1) = 2 powi (- int (k - 1))" by (simp only:)
    also have "\<dots> = 1 / 2 ^ (k - 1)"
      by (simp only: power_int_minus power_int_of_nat divide_inverse mult_1)
    finally show ?thesis .
  qed
  ultimately have "x < (2::rat) powi (- int k + 1)" by simp
  then show ?thesis
    using False by (simp only: ilog2_def m_def k_def if_False)
qed

lemma fl_of_pos:
  assumes "0 < x"
  shows "fl x = of_int (round_half_even (x * 2 powi (52 - ilog2 x))) * 2 powi (ilog2 x - 52)"
  using assms by (simp add: fl_def Let_def)

lemma fl_pos:
  assumes "0 < x"
  shows "0 < fl x"
proof -
  define e where "e = ilog2 x"
  have "2 powi e \<le> x" unfolding e_def by (rule ilog2_lower [OF assms])
  then have "2 powi e * 2 powi (52 - e) \<le> x * 2 powi (52 - e)"
    by (simp add: mult_right_mono)
  moreover have "(2::rat) powi e * 2 powi (52 - e) = 2 powi 52"
    using power_int_add [of "2::rat" e "52 - e"] by simp
  ultimately have "of_int 1 \<le> x * 2 powi (52 - e)"
    by simp
  then have "1 \<le> round_half_even (x * 2 powi (52 - e))"
    by (rule round_half_even_ge)
  then have "0 < (of_int (round_half_even (x * 2 powi (52 - e))) :: rat)"
    by simp
  then show ?thesis
    unfolding fl_of_pos [OF assms] e_def [symmetric] by (simp add: zero_less_mult_iff)
qed

lemma fl_error:
  assumes "0 < x"
  shows "\<bar>fl x - x\<bar> \<le> x / 2 ^ 53"
proof -
  define e where "e = ilog2 x"
  define s where "s = (2::rat) powi (52 - e)"
  define t where "t = (2::rat) powi (e - 52)"
  define m where "m = round_half_even (x * s)"
  have s: "0 < s" and t: "0 < t" by (simp_all add: s_def t_def)
  have ts: "t * s = 1" unfolding s_def t_def by (rule two_powi_inverse)
  have f: "fl x = of_int m * t"
    unfolding fl_of_pos [OF assms] m_def s_def t_def e_def ..
  have "fl x - x = (of_int m - x * s) * t"
    using ts by (simp add: f algebra_simps)
  then have "\<bar>fl x - x\<bar> = \<bar>of_int m - x * s\<bar> * t"
    using t by (simp add: abs_mult)
  also have "\<dots> \<le> (1 / 2) * t"
    using round_half_even_error [of "x * s"] t unfolding m_def by (simp add: mult_right_mono)
  also have "(1 / 2) * t = 2 powi e / 2 ^ 53"
  proof -
    have "(2::rat) powi (e - 52) = 2 powi e * 2 powi (- 52)"
      using power_int_add [of "2::rat" e "- 52"] by simp
    then show ?thesis by (simp add: t_def power_int_minus field_simps)
  qed
  also have "\<dots> \<le> x / 2 ^ 53"
    using ilog2_lower [OF assms] by (simp add: e_def divide_right_mono)
  finally show ?thesis .
qed

lemma fl_exact_half:
  assumes "0 \<le> k" and "k < 2 ^ 53"
  shows "fl (of_int k / 2) = of_int k / 2"
proof (cases "k = 0")
  case True
  then show ?thesis by (simp add: fl_def)
next
  case False
  define x :: rat where "x = of_int k / 2"
  have x: "0 < x" using assms False by (simp add: x_def)
  define e where "e = ilog2 x"
  have "2 powi e \<le> x" unfolding e_def by (rule ilog2_lower [OF x])
  moreover have "x < 2 powi 52"
  proof -
    have "(of_int k :: rat) < of_int (2 ^ 53)" using assms(2) by (simp only: of_int_less_iff)
    then show ?thesis by (simp add: x_def)
  qed
  ultimately have "(2::rat) powi e < 2 powi 52" by simp
  then have e: "e < 52"
    by (rule power_int_le_imp_less_exp [rotated]) simp_all
  define j where "j = nat (51 - e)"
  have se: "(2::rat) powi (52 - e) = 2 * 2 ^ j"
  proof -
    have "52 - e = int (Suc j)" using e by (simp add: j_def)
    then show ?thesis by (simp del: of_nat_Suc)
  qed
  have "x * 2 powi (52 - e) = of_int (k * 2 ^ j)"
    by (simp add: se x_def)
  then have "round_half_even (x * 2 powi (52 - e)) = k * 2 ^ j"
    by (simp only: round_half_even_of_int)
  then have "fl x = of_int (k * 2 ^ j) * 2 powi (e - 52)"
    unfolding fl_of_pos [OF x] e_def by simp
  also have "\<dots> = x * (2 powi (52 - e) * 2 powi (e - 52))"
    by (simp add: se x_def)
  also have "\<dots> = x"
    using two_powi_inverse [of e] by (simp add: mult.commute)
  finally show ?thesis by (simp add: x_def)
qed

lemma fl_exact_int:
  assumes "0 \<le> n" and "n < 2 ^ 52"
  shows "fl (of_int n) = of_int n"
  using fl_exact_half [of "2 * n"] assms by simp

lemma fl_upper:
  assumes "0 < x"
  shows "fl x \<le> x * (1 + 1 / 2 ^ 53)"
proof -
  have "fl x - x \<le> \<bar>fl x - x\<bar>" by simp
  also have "\<dots> \<le> x / 2 ^ 53" by (rule fl_error [OF assms])
  finally have "fl x \<le> x + x / 2 ^ 53" by simp
  then show ?thesis by (simp add: distrib_left)
qed

lemma fl_lower:
  assumes "0 < x"
  shows "x * (1 - 1 / 2 ^ 53) \<le> fl x"
proof -
  have "x - fl x \<le> \<bar>fl x - x\<bar>" by simp
  also have "\<dots> \<le> x / 2 ^ 53" by (rule fl_error [OF assms])
  finally have "x - x / 2 ^ 53 \<le> fl x" by simp
  then show ?thesis by (simp add: right_diff_distrib)
qed

lemma small_dim:
  fixes n :: int
  assumes "0 < n" and "n < 2 ^ 31"
  shows "(of_int n :: rat) * (1 / 2 ^ 53) < 1 / 4"
proof -
  have "(of_int n :: rat) < of_int (2 ^ 31)" using assms(2) by (simp only: of_int_less_iff)
  then have "(of_int n :: rat) * (1 / 2 ^ 53) < of_int (2 ^ 31) * (1 / 2 ^ 53)"
    by (simp only: mult_strict_right_mono zero_less_divide_1_iff zero_less_power zero_less_numeral)
  then show ?thesis by simp
qed

lemma py_int_nonneg: "0 \<le> x \<Longrightarrow> py_int x = \<lfloor>x\<rfloor>"
  by (simp add: py_int_def)

lemma new_width_bounds:
  assumes w: "0 < w" and h: "0 < h" and W: "0 < W" "W < 2 ^ 31" and H: "0 < H" "H < 2 ^ 31"
    and br: "fl (of_int w / of_int h) < fl (of_int W / of_int H)"
  shows "0 \<le> py_int (float_mul (fl (of_int w / of_int h)) (float_of_int H))
         \<and> py_int (float_mul (fl (of_int w / of_int h)) (float_of_int H)) \<le> W"
proof -
  define u :: rat where "u = 1 / 2 ^ 53"
  define ta where "ta = fl (of_int w / of_int h)"
  define ca where "ca = fl (of_int W / of_int H)"
  define v where "v = fl (ta * of_int H)"
  have u: "0 < u" "u < 1 / 4" by (simp_all add: u_def)
  have ta: "0 < ta" unfolding ta_def using w h by (intro fl_pos) simp
  have fH: "float_of_int H = of_int H"
    unfolding float_of_int_def using H by (intro fl_exact_int) simp_all
  have p: "0 < ta * of_int H" using ta H by simp
  then have v: "0 < v" unfolding v_def by (rule fl_pos)
  have Wu: "of_int W * u < 1 / 4" unfolding u_def using W by (rule small_dim)
  have "ca \<le> (of_int W / of_int H) * (1 + u)"
    unfolding ca_def u_def using W H by (intro fl_upper) simp
  then have "ca * of_int H \<le> of_int W * (1 + u)"
    using H by (simp add: field_simps)
  moreover have "ta * of_int H < ca * of_int H"
    using br H by (simp add: ta_def ca_def)
  ultimately have a: "ta * of_int H < of_int W * (1 + u)" by simp
  have "v \<le> (ta * of_int H) * (1 + u)"
    unfolding v_def u_def using p by (rule fl_upper)
  also have "\<dots> < (of_int W * (1 + u)) * (1 + u)"
    using a u by (simp add: mult_strict_right_mono)
  also have "\<dots> = of_int W + of_int W * u + (of_int W * u + of_int W * u * u)"
    by (simp add: algebra_simps)
  also have "\<dots> < of_int W + 1"
  proof -
    have "of_int W * u * u < (1 / 4) * u"
      using Wu u by (simp add: mult_strict_right_mono)
    then show ?thesis using Wu u by linarith
  qed
  finally have "v < of_int (W + 1)" by simp
  then have "\<lfloor>v\<rfloor> < W + 1" by (simp only: floor_less_iff)
  moreover have "0 \<le> \<lfloor>v\<rfloor>" using v by simp
  moreover have "py_int (float_mul (fl (of_int w / of_int h)) (float_of_int H)) = \<lfloor>v\<rfloor>"
    using v by (simp add: py_int_nonneg float_mul_def fH v_def ta_def)
  ultimately show ?thesis by simp
qed

lemma new_height_bounds:
  assumes w: "0 < w" and h: "0 < h" and W: "0 < W" "W < 2 ^ 31" and H: "0 < H" "H < 2 ^ 31"
    and br: "\<not> fl (of_int w / of_int h) < fl (of_int W / of_int H)"
  shows "\<exists>q. float_truediv (float_of_int W) (fl (of_int w / of_int h)) = Inr q
             \<and> 0 \<le> py_int q \<and> py_int q \<le> H"
proof -
  define u :: rat where "u = 1 / 2 ^ 53"
  define ta where "ta = fl (of_int w / of_int h)"
  define ca where "ca = fl (of_int W / of_int H)"
  define z where "z = of_int W / ta"
  define q where "q = fl z"
  have u: "0 < u" "u < 1 / 4" by (simp_all add: u_def)
  have ta: "0 < ta" unfolding ta_def using w h by (intro fl_pos) simp
  have fW: "float_of_int W = of_int W"
    unfolding float_of_int_def using W by (intro fl_exact_int) simp_all
  have z: "0 < z" unfolding z_def using ta W by simp
  then have q0: "0 < q" unfolding q_def by (rule fl_pos)
  have Hu: "of_int H * u < 1 / 4" unfolding u_def using H by (rule small_dim)
  have "(of_int W / of_int H) * (1 - u) \<le> ca"
    unfolding ca_def u_def using W H by (intro fl_lower) simp
  moreover have "ca \<le> ta" using br by (simp add: ta_def ca_def)
  ultimately have "(of_int W / of_int H) * (1 - u) \<le> ta" by simp
  then have "of_int W * (1 - u) \<le> ta * of_int H"
    using H by (simp add: field_simps)
  then have "z * (1 - u) \<le> of_int H"
    unfolding z_def using ta by (simp add: field_simps)
  then have zb: "z \<le> of_int H + z * u" by (simp add: algebra_simps)
  have zu: "z * u < 1 / 2"
  proof -
    have "z * (1 - u) * u \<le> of_int H * u"
      using \<open>z * (1 - u) \<le> of_int H\<close> u by (simp add: mult_right_mono)
    then have "z * u * (1 - u) < 1 / 4" using Hu by (simp add: algebra_simps)
    moreover have "z * u * (3 / 4) \<le> z * u * (1 - u)"
      using z u by (simp add: mult_left_mono)
    ultimately have "z * u * (3 / 4) < 1 / 4" by linarith
    then show ?thesis by linarith
  qed
  have "q \<le> z * (1 + u)"
    unfolding q_def u_def using z by (rule fl_upper)
  also have "\<dots> = z + z * u" by (simp add: algebra_simps)
  also have "\<dots> < of_int H + 1" using zb zu by simp
  finally have "q < of_int (H + 1)" by simp
  then have "\<lfloor>q\<rfloor> < H + 1" by (simp only: floor_less_iff)
  moreover have "0 \<le> \<lfloor>q\<rfloor>" using q0 by simp
  moreover have "py_int q = \<lfloor>q\<rfloor>" using q0 by (simp add: py_int_nonneg)
  moreover have "float_truediv (float_of_int W) (fl (of_int w / of_int h)) = Inr q"
    using ta by (simp add: float_truediv_def fW q_def z_def ta_def)
  ultimately show ?thesis by auto
qed

lemma centred:
  fixes n D :: int
  assumes "0 \<le> n" and "n \<le> D" and "D < 2 ^ 31"
  shows "int_truediv (D - n) 2 = Inr (of_int (D - n) / 2)"
    and "float_add (of_int (D - n) / 2) (float_of_int n) = of_int (D + n) / 2"
proof -
  have "fl (of_int (D - n) / 2) = of_int (D - n) / 2"
    using assms by (intro fl_exact_half) simp_all
  then show "int_truediv (D - n) 2 = Inr (of_int (D - n) / 2)"
    by (simp add: int_truediv_def)
  have "fl (of_int n) = of_int n"
    using assms by (intro fl_exact_int) simp_all
  moreover have "fl (of_int (D + n) / 2) = of_int (D + n) / 2"
    using assms by (intro fl_exact_half) simp_all
  moreover have "of_int (D - n) / 2 + (of_int n :: rat) = of_int (D + n) / 2"
    by (simp add: field_simps)
  ultimately show "float_add (of_int (D - n) / 2) (float_of_int n) = of_int (D + n) / 2"
    by (simp only: float_add_def float_of_int_def)
qed

section \<open>The crop rectangle\<close>

lemma crop_box_wider:
  assumes "0 < w" and "0 < h" and "0 < W" and "W < 2 ^ 31" and "0 < H" and "H < 2 ^ 31"
    and br: "fl (of_int w / of_int h) < fl (of_int W / of_int H)"
  shows "\<exists>n. n = py_int (float_mul (fl (of_int w / of_int h)) (float_of_int H))
             \<and> 0 \<le> n \<and> n \<le> W
             \<and> crop_box w h W H = Inr (of_int (W - n) / 2, 0, of_int (W + n) / 2, of_int H)"
proof -
  define n where "n = py_int (float_mul (fl (of_int w / of_int h)) (float_of_int H))"
  have n: "0 \<le> n" "n \<le> W"
    using new_width_bounds [OF assms] by (simp_all add: n_def)
  have c: "int_truediv (W - n) 2 = Inr (of_int (W - n) / 2)"
    "float_add (of_int (W - n) / 2) (float_of_int n) = of_int (W + n) / 2"
    using centred [OF n assms(4)] by simp_all
  have ta: "int_truediv w h = Inr (fl (of_int w / of_int h))"
    using assms by (simp add: int_truediv_def)
  have ca: "int_truediv W H = Inr (fl (of_int W / of_int H))"
    using assms by (simp add: int_truediv_def)
  have "crop_box w h W H = Inr (of_int (W - n) / 2, 0, of_int (W + n) / 2, of_int H)"
    unfolding crop_box_def ta ca
    by (simp only: sum.case br if_True Let_def n_def [symmetric] c)
  with n show ?thesis
    unfolding n_def by blast
qed

lemma crop_box_taller:
  assumes "0 < w" and "0 < h" and "0 < W" and "W < 2 ^ 31" and "0 < H" and "H < 2 ^ 31"
    and br: "\<not> fl (of_int w / of_int h) < fl (of_int W / of_int H)"
  shows "\<exists>q n. float_truediv (float_of_int W) (fl (of_int w / of_int h)) = Inr q
             \<and> n = py_int q \<and> 0 \<le> n \<and> n \<le> H
             \<and> crop_box w h W H = Inr (0, of_int (H - n) / 2, of_int W, of_int (H + n) / 2)"
proof -
  obtain q where q: "float_truediv (float_of_int W) (fl (of_int w / of_int h)) = Inr q"
    and n: "0 \<le> py_int q" "py_int q \<le> H"
    using new_height_bounds [OF assms] by blast
  define n where "n = py_int q"
  have c: "int_truediv (H - n) 2 = Inr (of_int (H - n) / 2)"
    "float_add (of_int (H - n) / 2) (float_of_int n) = of_int (H + n) / 2"
    using centred [of n H] n assms(6) by (simp_all add: n_def)
  have ta: "int_truediv w h = Inr (fl (of_int w / of_int h))"
    using assms by (simp add: int_truediv_def)
  have ca: "int_truediv W H = Inr (fl (of_int W / of_int H))"
    using assms by (simp add: int_truediv_def)
  have "crop_box w h W H = Inr (0, of_int (H - n) / 2, of_int W, of_int (H + n) / 2)"
    unfolding crop_box_def ta ca
    by (simp only: sum.case br if_False Let_def q n_def [symmetric] c)
  with n q show ?thesis
    unfolding n_def by blast
qed

lemma half_sum: "of_int (D + n) / 2 = of_int (D - n) / 2 + (of_int n :: rat)"
  by (simp add: field_simps)




text \<open>
  An image with exactly the target's aspect ratio never takes the branch that narrows
  the width.
\<close>

lemma aspect_equal_branch:
  assumes "W * h = H * w" and "0 < h" and "0 < H"
  shows "\<not> fl (of_int w / of_int h) < fl (of_int W / of_int H)"
proof -
  have "(of_int W :: rat) * of_int h = of_int H * of_int w"
    using assms(1) by (metis of_int_mult)
  then have "(of_int w :: rat) / of_int h = of_int W / of_int H"
    using assms by (simp add: field_simps)
  then show ?thesis by simp
qed

text \<open>
  C3. A 110 by 100 image for the target 110 by 100 has the target's aspect ratio,
  and the branch that narrows the height is taken; but \<^verbatim>\<open>int(110 / (110 / 100))\<close> is 99,
  not 100, so the rectangle handed to \<^verbatim>\<open>crop\<close> runs from 0.5 to 99.5 in height and is
  not the whole image.
\<close>

theorem aspect_equal_loses_a_row:
  "crop_box 110 100 110 100 = Inr (0, 1 / 2, 110, 199 / 2)"
  by code_simp

text \<open>
  C4, as stated: every boundary of the crop rectangle that is not an integer is
  truncated toward zero before the rectangle is handed on. For a 1001 by 800 image
  and the target 800 by 800 the left boundary handed to \<^verbatim>\<open>crop\<close> is 100.5, which
  truncation would have made 100.
\<close>

theorem crop_boundary_counterexample:
  "crop_box 800 800 1001 800 = Inr (201 / 2, 0, 1801 / 2, 800)
   \<and> (201 / 2 :: rat) \<noteq> of_int (py_int (201 / 2))"
  by code_simp

text \<open>
  C4, amended. For target and image dimensions that are positive and below
  \<open>2 ^ 31\<close>: only the new width, or the new height, is truncated toward zero: it
  is an integer \<open>n\<close> between 0 and the image's width (height). The centring offset is
  the exact half \<open>(W - n) / 2\<close>, or \<open>(H - n) / 2\<close>, a half-integer when the difference
  is odd; the opposite boundary is the offset plus \<open>n\<close>; the other two boundaries are 0
  and the full height (width). The rectangle is handed to the library's \<^verbatim>\<open>crop\<close> as it
  is, neither truncated nor rounded.
\<close>

theorem crop_box_value:
  assumes w: "0 < w" "w < 2 ^ 31" and h: "0 < h" "h < 2 ^ 31"
    and W: "0 < W" "W < 2 ^ 31" and H: "0 < H" "H < 2 ^ 31"
  shows "(fl (of_int w / of_int h) < fl (of_int W / of_int H) \<longrightarrow>
            (\<exists>n. n = py_int (float_mul (fl (of_int w / of_int h)) (float_of_int H))
                 \<and> 0 \<le> n \<and> n \<le> W
                 \<and> crop_box w h W H
                     = Inr (of_int (W - n) / 2, 0, of_int (W - n) / 2 + of_int n, of_int H)))
         \<and> (\<not> fl (of_int w / of_int h) < fl (of_int W / of_int H) \<longrightarrow>
            (\<exists>q n. float_truediv (float_of_int W) (fl (of_int w / of_int h)) = Inr q
                 \<and> n = py_int q \<and> 0 \<le> n \<and> n \<le> H
                 \<and> crop_box w h W H
                     = Inr (0, of_int (H - n) / 2, of_int W, of_int (H - n) / 2 + of_int n)))"
  using crop_box_wider [OF w(1) h(1) W H] crop_box_taller [OF w(1) h(1) W H]
  unfolding half_sum by blast

theorem crop_box_value_witness:
  "crop_box 600 800 1200 900 = Inr (525 / 2, 0, 1875 / 2, 900)
   \<and> crop_box 600 800 500 901 = Inr (0, 235 / 2, 500, 1567 / 2)"
proof -
  have a: "fl (of_int 600 / of_int 800) < fl (of_int 1200 / of_int 900)"
    by code_simp
  have n: "py_int (float_mul (fl (of_int 600 / of_int 800)) (float_of_int 900)) = 675"
    by code_simp
  have b: "\<not> fl (of_int 600 / of_int 800) < fl (of_int 500 / of_int 901)"
    by code_simp
  have e: "float_truediv (float_of_int 500) (fl (of_int 600 / of_int 800))
             = Inr (fl (500 / fl (600 / 800)))"
    by code_simp
  have v: "py_int (fl (500 / fl (600 / 800))) = 666"
    by code_simp
  have q: "py_int q = 666"
    if "float_truediv (float_of_int 500) (fl (of_int 600 / of_int 800)) = Inr q" for q
    using that e v by simp
  have 1: "crop_box 600 800 1200 900 = Inr (525 / 2, 0, 1875 / 2, 900)"
    using crop_box_value [of 600 800 1200 900] a n by simp
  have 2: "crop_box 600 800 500 901 = Inr (0, 235 / 2, 500, 1567 / 2)"
    using crop_box_value [of 600 800 500 901] b q by auto
  from 1 2 show ?thesis ..
qed

end
